theory Spec2Isabelle
  imports Complex_Main
begin

section \<open>Data model (types.ts)\<close>

text \<open>
  JavaScript numbers are modelled as reals.  The only non-real value the engine's own
  arithmetic can produce from real inputs is the NaN of \<open>0 / 0\<close> in
  \<open>lineIntersectsObstacle\<close>; it is modelled there as \<open>None\<close>.  Array indices and
  node ids are naturals.  The fields \<open>x\<close>, \<open>y\<close> of a Point are called \<open>px\<close>, \<open>py\<close>,
  those of an Obstacle \<open>ox\<close>, \<open>oy\<close>, \<open>ow\<close>, \<open>oh\<close>, and the \<open>id\<close> of a Node is \<open>nid\<close>.
\<close>

record point =
  px :: real
  py :: real

record node = point +
  nid :: nat
  parentId :: "nat option"
  cost :: real
  children :: "nat list"

record obstacle =
  ox :: real
  oy :: real
  ow :: real
  oh :: real

datatype algorithmType = RRT | RRTStar

record solverParams =
  stepSize :: real
  maxIterations :: nat
  goalBias :: real
  searchRadius :: real

datatype codeStep =
  SAMPLE | NEAREST | STEER | COLLISION_CHECK | NEIGHBORS | CHOOSE_PARENT | ADD_NODE | REWIRE | IDLE

section \<open>Geometry and collision (utils/geo.ts)\<close>

definition dist_pts :: "'a point_scheme \<Rightarrow> 'b point_scheme \<Rightarrow> real" where
  "dist_pts p1 p2 = sqrt ((px p1 - px p2)\<^sup>2 + (py p1 - py p2)\<^sup>2)"

text \<open>The two calls of \<open>Math.random\<close> in \<open>samplePoint\<close> are the arguments \<open>rx\<close>, \<open>ry\<close>.\<close>

definition samplePoint :: "real \<Rightarrow> real \<Rightarrow> real \<Rightarrow> real \<Rightarrow> point" where
  "samplePoint rx ry wd ht = \<lparr>px = rx * wd, py = ry * ht\<rparr>"

definition atan2 :: "real \<Rightarrow> real \<Rightarrow> real" where
  "atan2 b a =
     (if 0 < a then arctan (b / a)
      else if a < 0 \<and> 0 \<le> b then arctan (b / a) + pi
      else if a < 0 \<and> b < 0 then arctan (b / a) - pi
      else if 0 < b then pi / 2
      else if b < 0 then - (pi / 2)
      else 0)"

definition steer :: "'a point_scheme \<Rightarrow> point \<Rightarrow> real \<Rightarrow> point" where
  "steer from to stepSz =
     (let d = dist_pts from to in
      if d \<le> stepSz then to
      else
        let theta = atan2 (py to - py from) (px to - px from) in
        \<lparr>px = px from + stepSz * cos theta, py = py from + stepSz * sin theta\<rparr>)"

definition pointInObstacles :: "'a point_scheme \<Rightarrow> obstacle list \<Rightarrow> bool" where
  "pointInObstacles p obs =
     list_ex (\<lambda>ob. px p \<ge> ox ob \<and> px p \<le> ox ob + ow ob \<and> py p \<ge> oy ob \<and> py p \<le> oy ob + oh ob) obs"

text \<open>
  \<open>i / steps\<close> for the loop counter \<open>0 \<le> i \<le> steps\<close>: when \<open>steps\<close> is 0 the only
  counter value is 0 and JavaScript evaluates \<open>0 / 0\<close> to NaN (\<open>None\<close>).
\<close>

definition interpParam :: "nat \<Rightarrow> nat \<Rightarrow> real option" where
  "interpParam i steps = (if steps = 0 then None else Some (real i / real steps))"

text \<open>
  One sampled point of the segment against the rectangle.  NaN propagates through
  \<open>p1.x + t * (p2.x - p1.x)\<close>, and every comparison with NaN is false.
\<close>

definition sampleInside :: "'a point_scheme \<Rightarrow> 'b point_scheme \<Rightarrow> obstacle \<Rightarrow> real option \<Rightarrow> bool" where
  "sampleInside p1 p2 ob t =
     (case t of
        None \<Rightarrow> False
      | Some tv \<Rightarrow>
          (let xv = px p1 + tv * (px p2 - px p1);
               yv = py p1 + tv * (py p2 - py p1)
           in xv \<ge> ox ob \<and> xv \<le> ox ob + ow ob \<and> yv \<ge> oy ob \<and> yv \<le> oy ob + oh ob))"

function sampleLoop :: "'a point_scheme \<Rightarrow> 'b point_scheme \<Rightarrow> obstacle \<Rightarrow> nat \<Rightarrow> nat \<Rightarrow> bool" where
  "sampleLoop p1 p2 ob steps i =
     (if i \<le> steps then
        (if sampleInside p1 p2 ob (interpParam i steps) then True
         else sampleLoop p1 p2 ob steps (Suc i))
      else False)"
  by pat_completeness auto
termination
  by (relation "measure (\<lambda>(p1, p2, ob, steps, i). Suc steps - i)") auto

declare sampleLoop.simps [simp del]

definition lineIntersectsObstacle :: "'a point_scheme \<Rightarrow> 'b point_scheme \<Rightarrow> obstacle \<Rightarrow> bool" where
  "lineIntersectsObstacle p1 p2 ob =
     (let minX = min (px p1) (px p2);
          maxX = max (px p1) (px p2);
          minY = min (py p1) (py p2);
          maxY = max (py p1) (py p2)
      in
      if maxX < ox ob \<or> minX > ox ob + ow ob \<or> maxY < oy ob \<or> minY > oy ob + oh ob then False
      else
        let d = dist_pts p1 p2;
            steps = nat \<lceil>d / 5\<rceil>
        in sampleLoop p1 p2 ob steps 0)"

definition checkCollision :: "'a point_scheme \<Rightarrow> 'b point_scheme \<Rightarrow> obstacle list \<Rightarrow> bool" where
  "checkCollision p1 p2 obs = list_ex (lineIntersectsObstacle p1 p2) obs"

section \<open>The planner (services/rrt.ts)\<close>

text \<open>
  Failures of the JavaScript are values: \<open>TypeError\<close> is a property read on
  \<open>undefined\<close> (an array read out of range); \<open>OutOfFuel\<close> is the recursion of
  \<open>updateCost\<close> not having returned within the given depth.
\<close>

datatype error = TypeError | OutOfFuel

text \<open>The values the calls of \<open>Math.random\<close> return during one micro-step.\<close>

record draws =
  rBias :: real
  rX :: real
  rY :: real

text \<open>
  \<open>tempNearestNode\<close> is a reference to a node object of the store; it is modelled as
  the position of that object in \<open>nodes\<close>, so that reads through the reference see the
  store as it is at the time of the read.
\<close>

record planner =
  nodes :: "node list"
  width :: real
  height :: real
  start :: point
  goal :: point
  obstacles :: "obstacle list"
  params :: solverParams
  goalNodeId :: "nat option"
  algorithm :: algorithmType
  microState :: codeStep
  tempSample :: "point option"
  tempNearestNode :: "nat option"
  tempNewPoint :: "point option"
  tempNeighbors :: "nat list"
  tempBestParent :: "nat option"

definition construct ::
  "real \<Rightarrow> real \<Rightarrow> point \<Rightarrow> point \<Rightarrow> obstacle list \<Rightarrow> solverParams \<Rightarrow> algorithmType \<Rightarrow> planner" where
  "construct wd ht st gl obs prm alg =
     \<lparr>nodes = [\<lparr>px = px st, py = py st, nid = 0, parentId = None, cost = 0, children = []\<rparr>],
      width = wd, height = ht, start = st, goal = gl, obstacles = obs, params = prm,
      goalNodeId = None, algorithm = alg, microState = SAMPLE,
      tempSample = None, tempNearestNode = None, tempNewPoint = None,
      tempNeighbors = [], tempBestParent = None\<rparr>"

definition resetTemp :: "planner \<Rightarrow> planner" where
  "resetTemp s =
     s\<lparr>tempSample := None, tempNearestNode := None, tempNewPoint := None,
       tempNeighbors := [], tempBestParent := None\<rparr>"

text \<open>The node object behind \<open>tempNearestNode\<close>, if any.\<close>

definition nearestRef :: "planner \<Rightarrow> node option" where
  "nearestRef s =
     (case tempNearestNode s of
        None \<Rightarrow> None
      | Some i \<Rightarrow> if i < length (nodes s) then Some (nodes s ! i) else None)"

text \<open>
  The distance as the scan of NEAREST tests it.  \<open>Math.pow\<close> and the sum overflow to
  \<open>Infinity\<close> once the sum of the squares exceeds \<open>Number.MAX_VALUE\<close>
  (\<open>2^1024 - 2^971\<close>), and \<open>Math.sqrt(Infinity)\<close> is \<open>Infinity\<close>; a difference that
  overflows has a square above that bound as well.  \<open>None\<close> is a distance that is no
  finite number.
\<close>

definition maxNumber :: real where
  "maxNumber = 2 ^ 1024 - 2 ^ 971"

definition distOrInf :: "('a point_scheme) \<Rightarrow> ('b point_scheme) \<Rightarrow> real option" where
  "distOrInf p1 p2 =
     (if maxNumber < (px p1 - px p2)\<^sup>2 + (py p1 - py p2)\<^sup>2 then None else Some (dist_pts p1 p2))"

text \<open>
  The scan of NEAREST.  \<open>minDist\<close> starts at \<open>Infinity\<close> (\<open>None\<close>) and
  \<open>nearestNodeIndex\<close> at \<open>-1\<close> (\<open>None\<close>).  The test \<open>d < minDist\<close> fails for a
  distance that is no finite number, also against the initial \<open>Infinity\<close>; when every
  distance fails it, \<open>nodes[-1]\<close> is \<open>undefined\<close> and \<open>tempNearestNode\<close> is left without
  a node (\<open>None\<close>).
\<close>

definition lessInf :: "real option \<Rightarrow> real option \<Rightarrow> bool" where
  "lessInf d minDist =
     (case d of
        None \<Rightarrow> False
      | Some dv \<Rightarrow> (case minDist of None \<Rightarrow> True | Some m \<Rightarrow> dv < m))"

function nearestLoop :: "node list \<Rightarrow> point \<Rightarrow> nat \<Rightarrow> real option \<Rightarrow> nat option \<Rightarrow> nat option" where
  "nearestLoop ns smp i minDist nearestNodeIndex =
     (if i < length ns then
        (let d = distOrInf (ns ! i) smp in
         if lessInf d minDist then nearestLoop ns smp (Suc i) d (Some i)
         else nearestLoop ns smp (Suc i) minDist nearestNodeIndex)
      else nearestNodeIndex)"
  by pat_completeness auto
termination
  by (relation "measure (\<lambda>(ns, smp, i, minDist, idx). length ns - i)") auto

declare nearestLoop.simps [simp del]

text \<open>The scan of NEIGHBORS: the positions within the search radius, in ascending order.\<close>

definition findNeighbors :: "node list \<Rightarrow> point \<Rightarrow> real \<Rightarrow> nat list" where
  "findNeighbors ns newPt radius = filter (\<lambda>i. dist_pts (ns ! i) newPt \<le> radius) [0..<length ns]"

text \<open>The scan of CHOOSE_PARENT over \<open>tempNeighbors\<close>, carrying \<open>minCost\<close> and \<open>bestParentIdx\<close>.\<close>

fun chooseParentLoop ::
  "node list \<Rightarrow> point \<Rightarrow> obstacle list \<Rightarrow> nat list \<Rightarrow> real \<Rightarrow> nat \<Rightarrow> error + (real \<times> nat)" where
  "chooseParentLoop ns newPt obs [] minCost bestParentIdx = Inr (minCost, bestParentIdx)"
| "chooseParentLoop ns newPt obs (neighborIdx # rest) minCost bestParentIdx =
     (if neighborIdx < length ns then
        (let neighbor = ns ! neighborIdx;
             potentialCost = cost neighbor + dist_pts neighbor newPt
         in
         if potentialCost < minCost then
           (if \<not> checkCollision neighbor newPt obs then
              chooseParentLoop ns newPt obs rest potentialCost neighborIdx
            else chooseParentLoop ns newPt obs rest minCost bestParentIdx)
         else chooseParentLoop ns newPt obs rest minCost bestParentIdx)
      else Inl TypeError)"

text \<open>
  \<open>updateCost\<close> and its loop over \<open>node.children\<close>.  The first argument bounds the
  depth of the recursion; \<open>node.cost\<close> is read from the store in every round.
\<close>

fun updateCost :: "nat \<Rightarrow> nat \<Rightarrow> node list \<Rightarrow> error + node list"
  and updateCostLoop :: "nat \<Rightarrow> nat \<Rightarrow> nat list \<Rightarrow> node list \<Rightarrow> error + node list" where
  "updateCost 0 nodeId ns = Inl OutOfFuel"
| "updateCost (Suc fuel) nodeId ns =
     (if nodeId < length ns then updateCostLoop fuel nodeId (children (ns ! nodeId)) ns
      else Inl TypeError)"
| "updateCostLoop fuel nodeId [] ns = Inr ns"
| "updateCostLoop fuel nodeId (childId # rest) ns =
     (if childId < length ns then
        (let nd = ns ! nodeId;
             child = ns ! childId;
             ns1 = ns[childId := child\<lparr>cost := cost nd + dist_pts nd child\<rparr>]
         in
         case updateCost fuel childId ns1 of
           Inl e \<Rightarrow> Inl e
         | Inr ns2 \<Rightarrow> updateCostLoop fuel nodeId rest ns2)
      else Inl TypeError)"

text \<open>One neighbour of the REWIRE scan that passed both tests: the re-parenting.\<close>

definition reparent :: "nat \<Rightarrow> nat \<Rightarrow> nat \<Rightarrow> real \<Rightarrow> node list \<Rightarrow> error + node list" where
  "reparent fuel newNodeId neighborIdx newCost ns =
     (let neighbor = ns ! neighborIdx in
      case
        (case parentId neighbor of
           None \<Rightarrow> Inr ns
         | Some oldP \<Rightarrow>
             if oldP < length ns then
               Inr (ns[oldP := (ns ! oldP)\<lparr>children := filter (\<lambda>i. i \<noteq> nid neighbor) (children (ns ! oldP))\<rparr>])
             else Inl TypeError)
      of
        Inl e \<Rightarrow> Inl e
      | Inr ns1 \<Rightarrow>
          (let ns2 = ns1[neighborIdx := (ns1 ! neighborIdx)\<lparr>parentId := Some newNodeId, cost := newCost\<rparr>];
               ns3 = ns2[newNodeId := (ns2 ! newNodeId)\<lparr>children := children (ns2 ! newNodeId) @ [nid (ns2 ! neighborIdx)]\<rparr>]
           in updateCost fuel (nid (ns3 ! neighborIdx)) ns3))"

text \<open>The scan of REWIRE over \<open>tempNeighbors\<close>; \<open>newNodeId\<close> is a position of the store.\<close>

fun rewireLoop :: "nat \<Rightarrow> obstacle list \<Rightarrow> nat \<Rightarrow> nat list \<Rightarrow> node list \<Rightarrow> error + node list" where
  "rewireLoop fuel obs newNodeId [] ns = Inr ns"
| "rewireLoop fuel obs newNodeId (neighborIdx # rest) ns =
     (if Some neighborIdx = parentId (ns ! newNodeId) then rewireLoop fuel obs newNodeId rest ns
      else if neighborIdx < length ns then
        (let newNode = ns ! newNodeId;
             neighbor = ns ! neighborIdx;
             newCostThroughNewNode = cost newNode + dist_pts newNode neighbor
         in
         if newCostThroughNewNode < cost neighbor then
           (if \<not> checkCollision newNode neighbor obs then
              (case reparent fuel newNodeId neighborIdx newCostThroughNewNode ns of
                 Inl e \<Rightarrow> Inl e
               | Inr ns' \<Rightarrow> rewireLoop fuel obs newNodeId rest ns')
            else rewireLoop fuel obs newNodeId rest ns)
         else rewireLoop fuel obs newNodeId rest ns)
      else Inl TypeError)"

text \<open>The ADD_NODE case once \<open>tempNewPoint\<close> is known to be present.\<close>

definition addNode :: "planner \<Rightarrow> point \<Rightarrow> error + (bool \<times> planner)" where
  "addNode s newPt =
     (let ns = nodes s;
          nearestOrRoot = (case nearestRef s of None \<Rightarrow> 0 | Some nr \<Rightarrow> nid nr);
          finalParentIdx =
            (if algorithm s = RRTStar then
               (case tempBestParent s of None \<Rightarrow> nearestOrRoot | Some b \<Rightarrow> b)
             else nearestOrRoot)
      in
      if finalParentIdx < length ns then
        (let parent = ns ! finalParentIdx;
             c = cost parent + dist_pts parent newPt;
             newNodeId = length ns;
             newNode = \<lparr>px = px newPt, py = py newPt, nid = newNodeId,
                        parentId = Some finalParentIdx, cost = c, children = []\<rparr>;
             ns1 = ns @ [newNode];
             ns2 = ns1[finalParentIdx :=
                     (ns1 ! finalParentIdx)\<lparr>children := children (ns1 ! finalParentIdx) @ [newNodeId]\<rparr>]
         in
         if algorithm s = RRTStar then Inr (True, s\<lparr>nodes := ns2, microState := REWIRE\<rparr>)
         else Inr (False, (resetTemp (s\<lparr>nodes := ns2\<rparr>))\<lparr>microState := SAMPLE\<rparr>))
      else Inl TypeError)"

text \<open>
  The REWIRE case.  With an empty store \<open>nodes.length - 1\<close> is \<open>-1\<close> and \<open>newNode\<close> is
  \<open>undefined\<close>, so the first round of the scan fails.
\<close>

definition rewire :: "nat \<Rightarrow> planner \<Rightarrow> error + (bool \<times> planner)" where
  "rewire fuel s =
     (case
        (if algorithm s = RRTStar \<and> tempNewPoint s \<noteq> None then
           (if nodes s = [] then (if tempNeighbors s = [] then Inr (nodes s) else Inl TypeError)
            else rewireLoop fuel (obstacles s) (length (nodes s) - 1) (tempNeighbors s) (nodes s))
         else Inr (nodes s))
      of
        Inl e \<Rightarrow> Inl e
      | Inr ns' \<Rightarrow> Inr (False, (resetTemp (s\<lparr>nodes := ns'\<rparr>))\<lparr>microState := SAMPLE\<rparr>))"

definition stepMicro :: "nat \<Rightarrow> draws \<Rightarrow> planner \<Rightarrow> error + (bool \<times> planner)" where
  "stepMicro fuel rnd s =
     (if length (nodes s) \<ge> maxIterations (params s) then Inr (False, s)
      else
        case microState s of
          SAMPLE \<Rightarrow>
            Inr (True,
              s\<lparr>tempSample :=
                  Some (if rBias rnd < goalBias (params s) then goal s
                        else samplePoint (rX rnd) (rY rnd) (width s) (height s)),
                microState := NEAREST\<rparr>)
        | NEAREST \<Rightarrow>
            (case tempSample s of
               None \<Rightarrow> Inr (True, s\<lparr>microState := SAMPLE\<rparr>)
             | Some smp \<Rightarrow>
                 Inr (True,
                   s\<lparr>tempNearestNode := nearestLoop (nodes s) smp 0 None None,
                     microState := STEER\<rparr>))
        | STEER \<Rightarrow>
            (case nearestRef s of
               None \<Rightarrow> Inr (True, s\<lparr>microState := SAMPLE\<rparr>)
             | Some nr \<Rightarrow>
                 (case tempSample s of
                    None \<Rightarrow> Inr (True, s\<lparr>microState := SAMPLE\<rparr>)
                  | Some smp \<Rightarrow>
                      Inr (True,
                        s\<lparr>tempNewPoint := Some (steer nr smp (stepSize (params s))),
                          microState := COLLISION_CHECK\<rparr>)))
        | COLLISION_CHECK \<Rightarrow>
            (case nearestRef s of
               None \<Rightarrow> Inr (True, s\<lparr>microState := SAMPLE\<rparr>)
             | Some nr \<Rightarrow>
                 (case tempNewPoint s of
                    None \<Rightarrow> Inr (True, s\<lparr>microState := SAMPLE\<rparr>)
                  | Some newPt \<Rightarrow>
                      if checkCollision nr newPt (obstacles s) then
                        Inr (False, (resetTemp s)\<lparr>microState := SAMPLE\<rparr>)
                      else if algorithm s = RRTStar then Inr (True, s\<lparr>microState := NEIGHBORS\<rparr>)
                      else Inr (True, s\<lparr>microState := ADD_NODE\<rparr>)))
        | NEIGHBORS \<Rightarrow>
            (case tempNewPoint s of
               None \<Rightarrow> Inr (True, s\<lparr>microState := SAMPLE\<rparr>)
             | Some newPt \<Rightarrow>
                 Inr (True,
                   s\<lparr>tempNeighbors := findNeighbors (nodes s) newPt (searchRadius (params s)),
                     microState := CHOOSE_PARENT\<rparr>))
        | CHOOSE_PARENT \<Rightarrow>
            (case tempNewPoint s of
               None \<Rightarrow> Inr (True, s\<lparr>microState := SAMPLE\<rparr>)
             | Some newPt \<Rightarrow>
                 (case nearestRef s of
                    None \<Rightarrow> Inr (True, s\<lparr>microState := SAMPLE\<rparr>)
                  | Some nr \<Rightarrow>
                      (case chooseParentLoop (nodes s) newPt (obstacles s) (tempNeighbors s)
                              (cost nr + dist_pts nr newPt) (nid nr) of
                         Inl e \<Rightarrow> Inl e
                       | Inr (minCost, bestParentIdx) \<Rightarrow>
                           Inr (True,
                             s\<lparr>tempBestParent := Some bestParentIdx, microState := ADD_NODE\<rparr>))))
        | ADD_NODE \<Rightarrow>
            (case tempNewPoint s of
               None \<Rightarrow> Inr (True, s\<lparr>microState := SAMPLE\<rparr>)
             | Some newPt \<Rightarrow> addNode s newPt)
        | REWIRE \<Rightarrow> rewire fuel s
        | IDLE \<Rightarrow> Inr (True, s\<lparr>microState := SAMPLE\<rparr>))"

text \<open>
  \<open>step\<close>: the loop \<open>while (this.stepMicro() && ops < 20) ops++\<close>.  The \<open>k\<close>-th call of
  \<open>stepMicro\<close> (counted from 0) is made with \<open>ops = k\<close> and draws \<open>rng k\<close>; the loop
  returns the final value of \<open>ops\<close> with the state.
\<close>

function stepLoop :: "nat \<Rightarrow> (nat \<Rightarrow> draws) \<Rightarrow> nat \<Rightarrow> planner \<Rightarrow> error + (nat \<times> planner)" where
  "stepLoop fuel rng ops s =
     (case stepMicro fuel (rng ops) s of
        Inl e \<Rightarrow> Inl e
      | Inr (continue, s') \<Rightarrow>
          if continue \<and> ops < 20 then stepLoop fuel rng (Suc ops) s' else Inr (ops, s'))"
  by pat_completeness auto
termination
  by (relation "measure (\<lambda>(fuel, rng, ops, s). 20 - ops)") auto

declare stepLoop.simps [simp del]

definition step :: "nat \<Rightarrow> (nat \<Rightarrow> draws) \<Rightarrow> planner \<Rightarrow> error + (bool \<times> planner)" where
  "step fuel rng s =
     (case stepLoop fuel rng 0 s of
        Inl e \<Rightarrow> Inl e
      | Inr (ops, s') \<Rightarrow> Inr (True, s'))"




section \<open>Runs of the engine\<close>

text \<open>
  Consecutive calls of \<open>stepMicro\<close>, one per element of the list of draws, with the
  values they return.
\<close>

fun runMicro :: "nat \<Rightarrow> draws list \<Rightarrow> planner \<Rightarrow> error + (bool list \<times> planner)" where
  "runMicro fuel [] s = Inr ([], s)"
| "runMicro fuel (rnd # rest) s =
     (case stepMicro fuel rnd s of
        Inl e \<Rightarrow> Inl e
      | Inr (continue, s') \<Rightarrow>
          (case runMicro fuel rest s' of
             Inl e \<Rightarrow> Inl e
           | Inr (bs, s'') \<Rightarrow> Inr (continue # bs, s'')))"

text \<open>
  The states of a planner: the constructor's, and every state a call of \<open>stepMicro\<close>
  returns with, whatever the random draws.
\<close>

inductive reachable :: "planner \<Rightarrow> bool" where
  init: "reachable (construct wd ht st gl obs prm alg)"
| micro: "reachable s \<Longrightarrow> stepMicro fuel rnd s = Inr (continue, s') \<Longrightarrow> reachable s'"

section \<open>Properties of the tree store and of the scratch state\<close>

text \<open>
  The cost invariant of the tree store: the root has id 0 and cost 0, and every node
  with a parent costs its parent's cost plus the distance between the two.
\<close>

definition costInvariant :: "node list \<Rightarrow> bool" where
  "costInvariant ns =
     (ns \<noteq> [] \<and> nid (ns ! 0) = 0 \<and> cost (ns ! 0) = 0
      \<and> (\<forall>i<length ns.
            case parentId (ns ! i) of
              None \<Rightarrow> True
            | Some p \<Rightarrow> p < length ns \<and> cost (ns ! i) = cost (ns ! p) + dist_pts (ns ! i) (ns ! p)))"

text \<open>
  Following \<open>parentId\<close> from node \<open>i\<close> arrives at the root (position 0, no parent) within
  \<open>k\<close> steps.
\<close>

fun reachesRoot :: "node list \<Rightarrow> nat \<Rightarrow> nat \<Rightarrow> bool" where
  "reachesRoot ns 0 i = (i = 0 \<and> ns \<noteq> [] \<and> parentId (ns ! 0) = None)"
| "reachesRoot ns (Suc k) i =
     (i < length ns \<and> (case parentId (ns ! i) of None \<Rightarrow> i = 0 | Some p \<Rightarrow> reachesRoot ns k p))"

text \<open>
  \<open>children\<close> and \<open>parentId\<close> are inverse to each other: every listed child names the
  node as its parent, and every node naming it as parent is listed exactly once.
\<close>

definition childrenConsistent :: "node list \<Rightarrow> bool" where
  "childrenConsistent ns =
     (\<forall>i<length ns.
        (\<forall>c\<in>set (children (ns ! i)). c < length ns \<and> nid (ns ! c) = c \<and> parentId (ns ! c) = Some (nid (ns ! i)))
        \<and> (\<forall>c<length ns. parentId (ns ! c) = Some (nid (ns ! i)) \<longrightarrow> count_list (children (ns ! i)) c = 1))"

text \<open>
  The store is a rooted tree.
\<close>

definition treeInvariant :: "node list \<Rightarrow> bool" where
  "treeInvariant ns =
     ((\<forall>i<length ns. nid (ns ! i) = i)
      \<and> childrenConsistent ns
      \<and> (\<forall>i<length ns. reachesRoot ns (length ns) i))"

text \<open>
  All scratch fields are null or empty.
\<close>

definition scratchCleared :: "planner \<Rightarrow> bool" where
  "scratchCleared s =
     (tempSample s = None \<and> tempNearestNode s = None \<and> tempNewPoint s = None
      \<and> tempNeighbors s = [] \<and> tempBestParent s = None)"

text \<open>\<open>b\<close> is the first element of \<open>xs\<close> whose key is minimal among the keys of \<open>xs\<close>.\<close>

fun firstArgMin :: "(nat \<Rightarrow> real) \<Rightarrow> nat list \<Rightarrow> nat \<Rightarrow> bool" where
  "firstArgMin key [] b = False"
| "firstArgMin key (x # xs) b =
     (if x = b then list_all (\<lambda>j. key b \<le> key j) xs
      else key b < key x \<and> firstArgMin key xs b)"

text \<open>
  The scratch fields each micro-state reads, as the claim of defensive recovery lists
  them (\<open>requiredScratchMissing\<close>), and the ones the code guards with a reset to SAMPLE
  (\<open>guardedScratchMissing\<close>): ADD_NODE guards \<open>tempNewPoint\<close> only.
\<close>

definition requiredScratchMissing :: "planner \<Rightarrow> bool" where
  "requiredScratchMissing s =
     (case microState s of
        NEAREST \<Rightarrow> tempSample s = None
      | STEER \<Rightarrow> tempNearestNode s = None \<or> tempSample s = None
      | COLLISION_CHECK \<Rightarrow> tempNearestNode s = None \<or> tempNewPoint s = None
      | NEIGHBORS \<Rightarrow> tempNewPoint s = None
      | CHOOSE_PARENT \<Rightarrow> tempNewPoint s = None \<or> tempNearestNode s = None
      | ADD_NODE \<Rightarrow> tempNewPoint s = None \<or> tempNearestNode s = None
      | REWIRE \<Rightarrow> tempNewPoint s = None
      | _ \<Rightarrow> False)"

definition guardedScratchMissing :: "planner \<Rightarrow> bool" where
  "guardedScratchMissing s =
     (case microState s of
        NEAREST \<Rightarrow> tempSample s = None
      | STEER \<Rightarrow> tempNearestNode s = None \<or> tempSample s = None
      | COLLISION_CHECK \<Rightarrow> tempNearestNode s = None \<or> tempNewPoint s = None
      | NEIGHBORS \<Rightarrow> tempNewPoint s = None
      | CHOOSE_PARENT \<Rightarrow> tempNewPoint s = None \<or> tempNearestNode s = None
      | ADD_NODE \<Rightarrow> tempNewPoint s = None
      | REWIRE \<Rightarrow> tempNewPoint s = None
      | _ \<Rightarrow> False)"



text \<open>
  The sample that the SAMPLE micro-state stores for given draws, and the condition under
  which the scan of NEAREST finds a node: some stored node is at a finite distance from
  the sample.
\<close>

definition sampleOf :: "draws \<Rightarrow> planner \<Rightarrow> point" where
  "sampleOf rnd s =
     (if rBias rnd < goalBias (params s) then goal s
      else samplePoint (rX rnd) (rY rnd) (width s) (height s))"

definition finiteDist :: "node list \<Rightarrow> point \<Rightarrow> bool" where
  "finiteDist ns smp = (\<exists>n\<in>set ns. distOrInf n smp \<noteq> None)"

section \<open>The invariant of the engine\<close>

text \<open>
  The parent links of the store as a relation from a node to its parent.
\<close>

definition parentRel :: "node list \<Rightarrow> (nat \<times> nat) set" where
  "parentRel ns = {(c, p). c < length ns \<and> parentId (ns ! c) = Some p}"

text \<open>
  The shape of the store: ids are positions, only the root has no parent, parents are
  in range, \<open>children\<close> lists are duplicate-free and hold exactly the nodes that name the
  node as parent, and the parent links have no cycle.
\<close>

definition structOk :: "node list \<Rightarrow> bool" where
  "structOk ns =
     (ns \<noteq> []
      \<and> (\<forall>i<length ns. nid (ns ! i) = i)
      \<and> parentId (ns ! 0) = None
      \<and> (\<forall>i<length ns. i \<noteq> 0 \<longrightarrow> (\<exists>p<length ns. parentId (ns ! i) = Some p))
      \<and> (\<forall>i<length ns. distinct (children (ns ! i)))
      \<and> (\<forall>i<length ns. set (children (ns ! i)) = {c. c < length ns \<and> parentId (ns ! c) = Some i})
      \<and> acyclic (parentRel ns))"

text \<open>
  Every cached cost is the parent's cost plus the length of the edge, as the code
  computes it (\<open>dist(parent, child)\<close>), and the root costs 0.
\<close>

definition costOk :: "node list \<Rightarrow> bool" where
  "costOk ns =
     (cost (ns ! 0) = 0
      \<and> (\<forall>c<length ns. \<forall>p. parentId (ns ! c) = Some p \<longrightarrow>
            cost (ns ! c) = cost (ns ! p) + dist_pts (ns ! p) (ns ! c)))"

text \<open>
  The scratch fields that hold positions of the store are in range.
\<close>

definition scratchOk :: "planner \<Rightarrow> bool" where
  "scratchOk s =
     ((\<forall>i. tempNearestNode s = Some i \<longrightarrow> i < length (nodes s))
      \<and> (\<forall>b. tempBestParent s = Some b \<longrightarrow> b < length (nodes s))
      \<and> (\<forall>j\<in>set (tempNeighbors s). j < length (nodes s)))"

text \<open>
  The invariant of every state the engine reaches.
\<close>

definition plannerInv :: "planner \<Rightarrow> bool" where
  "plannerInv s = (structOk (nodes s) \<and> costOk (nodes s) \<and> scratchOk s)"

text \<open>
  What the engine's own calls maintain about the end of an iteration: a store that has
  reached \<open>maxIterations\<close> is either between iterations (tag SAMPLE, scratch cleared) or
  waits for the REWIRE of the node added last; and the tag REWIRE occurs only in RRT*,
  with the new point still in the scratch.
\<close>

definition pendingOk :: "planner \<Rightarrow> bool" where
  "pendingOk s =
     ((maxIterations (params s) \<le> length (nodes s) \<longrightarrow>
         (microState s = SAMPLE \<and> scratchCleared s) \<or> microState s = REWIRE)
      \<and> (microState s = REWIRE \<longrightarrow> algorithm s = RRTStar \<and> tempNewPoint s \<noteq> None))"





section \<open>Notions used in the proofs\<close>

text \<open>
  Two stores that differ at most in the \<open>cost\<close> fields.
\<close>

definition sameStruct :: "node list \<Rightarrow> node list \<Rightarrow> bool" where
  "sameStruct ns ns' =
     (length ns' = length ns \<and> (\<forall>i<length ns. ns' ! i = (ns ! i)\<lparr>cost := cost (ns' ! i)\<rparr>))"

text \<open>
  The cost of node \<open>c\<close> agrees with the cost of its parent.
\<close>

definition edgeOk :: "node list \<Rightarrow> nat \<Rightarrow> bool" where
  "edgeOk ns c =
     (\<forall>p. parentId (ns ! c) = Some p \<longrightarrow> cost (ns ! c) = cost (ns ! p) + dist_pts (ns ! p) (ns ! c))"

text \<open>
  The node \<open>n\<close> and its descendants.
\<close>

definition desc :: "node list \<Rightarrow> nat \<Rightarrow> nat set" where
  "desc ns n = {x. (x, n) \<in> (parentRel ns)\<^sup>*}"

text \<open>
  What a cascade over the set \<open>D\<close> of nodes leaves behind: only costs change, only
  inside \<open>D\<close>, and every node of \<open>D\<close> agrees with its parent.
\<close>

definition updPost :: "node list \<Rightarrow> nat set \<Rightarrow> node list \<Rightarrow> bool" where
  "updPost ns D ns' =
     (sameStruct ns ns'
      \<and> (\<forall>x<length ns. x \<notin> D \<longrightarrow> cost (ns' ! x) = cost (ns ! x))
      \<and> (\<forall>x\<in>D. edgeOk ns' x))"

text \<open>The store after the three structural writes of a re-parenting.\<close>

definition relink :: "nat \<Rightarrow> nat \<Rightarrow> nat \<Rightarrow> real \<Rightarrow> node list \<Rightarrow> node list" where
  "relink new nb oldP newCost ns =
     (let ns1 = ns[oldP := (ns ! oldP)\<lparr>children := filter (\<lambda>i. i \<noteq> nid (ns ! nb)) (children (ns ! oldP))\<rparr>];
          ns2 = ns1[nb := (ns1 ! nb)\<lparr>parentId := Some new, cost := newCost\<rparr>]
      in ns2[new := (ns2 ! new)\<lparr>children := children (ns2 ! new) @ [nid (ns2 ! nb)]\<rparr>])"

text \<open>
  What makes a re-parenting of \<open>nb\<close> from \<open>oldP\<close> to \<open>new\<close> keep the store a tree.
\<close>

definition relinkPre :: "node list \<Rightarrow> nat \<Rightarrow> nat \<Rightarrow> nat \<Rightarrow> bool" where
  "relinkPre ns new nb oldP =
     (structOk ns \<and> new < length ns \<and> nb < length ns \<and> parentId (ns ! nb) = Some oldP
      \<and> oldP \<noteq> new \<and> (new, nb) \<notin> (parentRel ns)\<^sup>*)"

text \<open>
  The store after re-parenting \<open>nb\<close> to \<open>new\<close> and cascading the costs.
\<close>

definition reparentPost :: "node list \<Rightarrow> nat \<Rightarrow> nat \<Rightarrow> node list \<Rightarrow> bool" where
  "reparentPost ns new nb ns' =
     (structOk ns' \<and> costOk ns' \<and> length ns' = length ns
      \<and> (\<forall>x<length ns. cost (ns' ! x) \<le> cost (ns ! x))
      \<and> cost (ns' ! nb) < cost (ns ! nb)
      \<and> (\<forall>x<length ns. parentId (ns' ! x) = (if x = nb then Some new else parentId (ns ! x)))
      \<and> parentId (ns ! nb) \<noteq> Some new)"

text \<open>
  The store after a scan of REWIRE with new node \<open>new\<close>.
\<close>

definition rewirePost :: "node list \<Rightarrow> nat \<Rightarrow> node list \<Rightarrow> bool" where
  "rewirePost ns new ns' =
     (structOk ns' \<and> costOk ns' \<and> length ns' = length ns
      \<and> (\<forall>x<length ns. cost (ns' ! x) \<le> cost (ns ! x)
            \<and> (parentId (ns' ! x) \<noteq> parentId (ns ! x) \<longrightarrow>
                 parentId (ns' ! x) = Some new \<and> cost (ns' ! x) < cost (ns ! x))))"

text \<open>The store after the two writes of ADD_NODE.\<close>

definition attach :: "node list \<Rightarrow> nat \<Rightarrow> point \<Rightarrow> node list" where
  "attach ns finalParentIdx newPt =
     (let parent = ns ! finalParentIdx;
          newNode = \<lparr>px = px newPt, py = py newPt, nid = length ns,
                     parentId = Some finalParentIdx,
                     cost = cost parent + dist_pts parent newPt, children = []\<rparr>;
          ns1 = ns @ [newNode]
      in ns1[finalParentIdx :=
               (ns1 ! finalParentIdx)\<lparr>children := children (ns1 ! finalParentIdx) @ [length ns]\<rparr>])"

text \<open>
  The parent ADD_NODE chooses: \<open>finalParentIdx\<close>.
\<close>

definition finalParent :: "planner \<Rightarrow> nat" where
  "finalParent s =
     (let nearestOrRoot = (case nearestRef s of None \<Rightarrow> 0 | Some nr \<Rightarrow> nid nr) in
      if algorithm s = RRTStar then
        (case tempBestParent s of None \<Rightarrow> nearestOrRoot | Some b \<Rightarrow> b)
      else nearestOrRoot)"


section \<open>Example planners\<close>

text \<open>
  An RRT* planner on a 10 by 10 field without obstacles, and the stores it goes through
  when the samples are (4,3), (4,0), (5,0) and (2,0).
\<close>

definition exParams :: solverParams where
  "exParams = \<lparr>stepSize = 5, maxIterations = 10, goalBias = 0, searchRadius = 3\<rparr>"

definition exInit :: planner where
  "exInit = construct 10 10 \<lparr>px = 0, py = 0\<rparr> \<lparr>px = 10, py = 0\<rparr> [] exParams RRTStar"

text \<open>
  Draws that miss the goal bias and sample the point \<open>(a, b)\<close> of the example field.
\<close>

definition drawsTo :: "real \<Rightarrow> real \<Rightarrow> draws" where
  "drawsTo a b = \<lparr>rBias = 1 / 2, rX = a / 10, rY = b / 10\<rparr>"

definition mkNode :: "real \<Rightarrow> real \<Rightarrow> nat \<Rightarrow> nat option \<Rightarrow> real \<Rightarrow> nat list \<Rightarrow> node" where
  "mkNode a b i p c ch = \<lparr>px = a, py = b, nid = i, parentId = p, cost = c, children = ch\<rparr>"

definition exTree1 :: "node list" where
  "exTree1 = [mkNode 0 0 0 None 0 [1], mkNode 4 3 1 (Some 0) 5 []]"

definition exTree2 :: "node list" where
  "exTree2 = [mkNode 0 0 0 None 0 [1], mkNode 4 3 1 (Some 0) 5 [2], mkNode 4 0 2 (Some 1) 8 []]"

definition exTree3 :: "node list" where
  "exTree3 = [mkNode 0 0 0 None 0 [1], mkNode 4 3 1 (Some 0) 5 [2], mkNode 4 0 2 (Some 1) 8 [3],
              mkNode 5 0 3 (Some 2) 9 []]"

definition exTree4pre :: "node list" where
  "exTree4pre = [mkNode 0 0 0 None 0 [1, 4], mkNode 4 3 1 (Some 0) 5 [2], mkNode 4 0 2 (Some 1) 8 [3],
              mkNode 5 0 3 (Some 2) 9 [], mkNode 2 0 4 (Some 0) 2 []]"

definition exRewire :: planner where
  "exRewire = exInit\<lparr>nodes := exTree4pre, microState := REWIRE,
      tempSample := Some \<lparr>px = 2, py = 0\<rparr>, tempNearestNode := Some 0,
      tempNewPoint := Some \<lparr>px = 2, py = 0\<rparr>, tempNeighbors := [0, 2, 3], tempBestParent := Some 0\<rparr>"

definition exTree4 :: "node list" where
  "exTree4 = [mkNode 0 0 0 None 0 [1, 4], mkNode 4 3 1 (Some 0) 5 [], mkNode 4 0 2 (Some 4) 4 [3],
              mkNode 5 0 3 (Some 2) 5 [], mkNode 2 0 4 (Some 0) 2 [2]]"

definition exFinal :: planner where
  "exFinal = exInit\<lparr>nodes := exTree4\<rparr>"

text \<open>
  The example planner at CHOOSE_PARENT of its fourth iteration.
\<close>

definition exChoose :: planner where
  "exChoose = exInit\<lparr>nodes := exTree3, microState := CHOOSE_PARENT,
      tempSample := Some \<lparr>px = 2, py = 0\<rparr>, tempNearestNode := Some 0,
      tempNewPoint := Some \<lparr>px = 2, py = 0\<rparr>, tempNeighbors := [0, 2, 3]\<rparr>"

text \<open>
  The same planner with room for two nodes only, and its state after seven micro-steps.
\<close>

definition exSatParams :: solverParams where
  "exSatParams = \<lparr>stepSize = 5, maxIterations = 2, goalBias = 0, searchRadius = 3\<rparr>"

definition exSat :: planner where
  "exSat = construct 10 10 \<lparr>px = 0, py = 0\<rparr> \<lparr>px = 10, py = 0\<rparr> [] exSatParams RRTStar"

definition exSatPending :: planner where
  "exSatPending = exSat\<lparr>nodes := exTree1, microState := REWIRE,
      tempSample := Some \<lparr>px = 4, py = 3\<rparr>, tempNearestNode := Some 0,
      tempNewPoint := Some \<lparr>px = 4, py = 3\<rparr>, tempNeighbors := [], tempBestParent := Some 0\<rparr>"

text \<open>
  Planners with an inconsistent scratch state.
\<close>

definition exNoNearest :: planner where
  "exNoNearest = exInit\<lparr>microState := ADD_NODE, tempNewPoint := Some \<lparr>px = 4, py = 3\<rparr>\<rparr>"

definition exNoSample :: planner where
  "exNoSample = exInit\<lparr>nodes := exTree1, microState := STEER, tempNearestNode := Some 1\<rparr>"

text \<open>
  An RRT* planner whose store is full from the start.
\<close>

definition exFull :: planner where
  "exFull = construct 10 10 \<lparr>px = 0, py = 0\<rparr> \<lparr>px = 10, py = 0\<rparr> []
     \<lparr>stepSize = 5, maxIterations = 1, goalBias = 0, searchRadius = 3\<rparr> RRTStar"

text \<open>
  A planner on a field of side \<open>2^600\<close>, whose samples are too far from the root for the
  distance to be a finite number, and the states it runs through: the scan of NEAREST
  finds no node and STEER goes back to SAMPLE.
\<close>

definition hugeSide :: real where
  "hugeSide = 2 ^ 600"

definition exHuge :: planner where
  "exHuge = construct hugeSide hugeSide \<lparr>px = 0, py = 0\<rparr> \<lparr>px = 10, py = 0\<rparr> [] exParams RRTStar"

definition drawsHalf :: draws where
  "drawsHalf = \<lparr>rBias = 1 / 2, rX = 1 / 2, rY = 1 / 2\<rparr>"

definition hugeSample :: point where
  "hugeSample = \<lparr>px = hugeSide / 2, py = hugeSide / 2\<rparr>"

definition exHugeNearest :: planner where
  "exHugeNearest = exHuge\<lparr>tempSample := Some hugeSample, microState := NEAREST\<rparr>"

definition exHugeSteer :: planner where
  "exHugeSteer = exHuge\<lparr>tempSample := Some hugeSample, microState := STEER\<rparr>"

definition exHugeAgain :: planner where
  "exHugeAgain = exHuge\<lparr>tempSample := Some hugeSample\<rparr>"



section \<open>Degenerate segments\<close>

lemma dist_pts_self: "dist_pts p p = 0"
  by (simp add: dist_pts_def)

lemma lineIntersectsObstacle_self: "\<not> lineIntersectsObstacle p p ob"
  by (simp add: lineIntersectsObstacle_def Let_def dist_pts_self interpParam_def sampleInside_def sampleLoop.simps)

text \<open>
  C10.  For every point \<open>p\<close> and every non-empty obstacle set, the collision test on the
  zero-length segment from \<open>p\<close> to \<open>p\<close> reports no collision, also when \<open>p\<close> lies
  strictly inside an obstacle: the step count is 0, the interpolation parameter is NaN
  and no sampled point passes the inside-rectangle comparisons.
\<close>

theorem checkCollision_degenerate:
  "obs \<noteq> [] \<Longrightarrow> checkCollision p p obs = False"
  by (simp add: checkCollision_def list_ex_iff lineIntersectsObstacle_self)

theorem checkCollision_degenerate_witness:
  "[\<lparr>ox = 0, oy = 0, ow = 10, oh = 10\<rparr>] \<noteq> []
   \<and> pointInObstacles \<lparr>px = 5, py = 5\<rparr> [\<lparr>ox = 0, oy = 0, ow = 10, oh = 10\<rparr>]
   \<and> checkCollision \<lparr>px = 5, py = 5\<rparr> \<lparr>px = 5, py = 5\<rparr> [\<lparr>ox = 0, oy = 0, ow = 10, oh = 10\<rparr>] = False"
  using checkCollision_degenerate [of "[\<lparr>ox = 0, oy = 0, ow = 10, oh = 10\<rparr>]" "\<lparr>px = 5, py = 5\<rparr>"]
  by (simp add: pointInObstacles_def)

section \<open>Parent links, ancestors and the root\<close>

lemma parentRel_iff: "(c, p) \<in> parentRel ns \<longleftrightarrow> c < length ns \<and> parentId (ns ! c) = Some p"
  by (simp add: parentRel_def)

lemma structOk_parent_lt:
  "structOk ns \<Longrightarrow> c < length ns \<Longrightarrow> parentId (ns ! c) = Some p \<Longrightarrow> p < length ns"
  unfolding structOk_def by (metis option.distinct(1) option.inject)

lemma parentRel_field:
  "structOk ns \<Longrightarrow> (c, p) \<in> parentRel ns \<Longrightarrow> c < length ns \<and> p < length ns"
  by (auto simp: parentRel_iff dest: structOk_parent_lt)

lemma parentRel_rtrancl_lt:
  "(c, a) \<in> (parentRel ns)\<^sup>* \<Longrightarrow> structOk ns \<Longrightarrow> c < length ns \<Longrightarrow> a < length ns"
  by (induction rule: rtrancl_induct) (auto dest: parentRel_field)

lemma parentRel_trancl_lt:
  "(c, a) \<in> (parentRel ns)\<^sup>+ \<Longrightarrow> structOk ns \<Longrightarrow> c < length ns \<and> a < length ns"
  by (induction rule: trancl_induct) (auto dest: parentRel_field)

lemma structOk_acyclic: "structOk ns \<Longrightarrow> acyclic (parentRel ns)"
  by (simp add: structOk_def)

lemma anc_psubset:
  assumes "structOk ns" "(c, p) \<in> parentRel ns"
  shows "{a. (p, a) \<in> (parentRel ns)\<^sup>*} \<subset> {a. (c, a) \<in> (parentRel ns)\<^sup>*}"
proof -
  have "c \<notin> {a. (p, a) \<in> (parentRel ns)\<^sup>*}"
  proof
    assume "c \<in> {a. (p, a) \<in> (parentRel ns)\<^sup>*}"
    then have "(c, c) \<in> (parentRel ns)\<^sup>+" using assms(2) by (simp add: rtrancl_into_trancl2)
    then show False using structOk_acyclic[OF assms(1)] by (simp add: acyclic_def)
  qed
  moreover have "{a. (p, a) \<in> (parentRel ns)\<^sup>*} \<subseteq> {a. (c, a) \<in> (parentRel ns)\<^sup>*}"
    using assms(2) by (auto intro: converse_rtrancl_into_rtrancl)
  ultimately show ?thesis by blast
qed

lemma anc_finite:
  assumes "structOk ns" "c < length ns"
  shows "finite {a. (c, a) \<in> (parentRel ns)\<^sup>*}" "card {a. (c, a) \<in> (parentRel ns)\<^sup>*} \<le> length ns"
proof -
  have sub: "{a. (c, a) \<in> (parentRel ns)\<^sup>*} \<subseteq> {..<length ns}"
    using parentRel_rtrancl_lt[OF _ assms(1) assms(2)] by auto
  show "finite {a. (c, a) \<in> (parentRel ns)\<^sup>*}" using sub finite_subset by blast
  show "card {a. (c, a) \<in> (parentRel ns)\<^sup>*} \<le> length ns"
    using card_mono[OF _ sub] by simp
qed

lemma reachesRoot_card:
  "structOk ns \<Longrightarrow> i < length ns \<Longrightarrow> card {a. (i, a) \<in> (parentRel ns)\<^sup>*} \<le> Suc k \<Longrightarrow> reachesRoot ns k i"
proof (induction k arbitrary: i)
  case 0
  show ?case
  proof (cases "i = 0")
    case True
    then show ?thesis using 0(1) by (simp add: structOk_def)
  next
    case False
    then obtain p where p: "p < length ns" "parentId (ns ! i) = Some p"
      using 0(1,2) unfolding structOk_def by blast
    then have "(i, p) \<in> parentRel ns" using 0(2) by (simp add: parentRel_iff)
    from anc_psubset[OF 0(1) this] anc_finite(1)[OF 0(1,2)]
    have "card {a. (p, a) \<in> (parentRel ns)\<^sup>*} < card {a. (i, a) \<in> (parentRel ns)\<^sup>*}"
      by (rule psubset_card_mono[rotated])
    moreover have "p \<in> {a. (p, a) \<in> (parentRel ns)\<^sup>*}" by simp
    then have "0 < card {a. (p, a) \<in> (parentRel ns)\<^sup>*}"
      using anc_finite(1)[OF 0(1) p(1)] card_gt_0_iff by blast
    ultimately show ?thesis using 0(3) by simp
  qed
next
  case (Suc k)
  show ?case
  proof (cases "i = 0")
    case True
    then show ?thesis using Suc(2,3) by (simp add: structOk_def)
  next
    case False
    then obtain p where p: "p < length ns" "parentId (ns ! i) = Some p"
      using Suc(2,3) unfolding structOk_def by blast
    then have "(i, p) \<in> parentRel ns" using Suc(3) by (simp add: parentRel_iff)
    from anc_psubset[OF Suc(2) this] anc_finite(1)[OF Suc(2,3)]
    have "card {a. (p, a) \<in> (parentRel ns)\<^sup>*} < card {a. (i, a) \<in> (parentRel ns)\<^sup>*}"
      by (rule psubset_card_mono[rotated])
    then have "card {a. (p, a) \<in> (parentRel ns)\<^sup>*} \<le> Suc k" using Suc(4) by simp
    from Suc(1)[OF Suc(2) p(1) this] show ?thesis using Suc(3) p by simp
  qed
qed

lemma reachesRoot_all:
  "structOk ns \<Longrightarrow> i < length ns \<Longrightarrow> reachesRoot ns (length ns) i"
  using reachesRoot_card[of ns i "length ns"] anc_finite(2)[of ns i] by simp

lemma reachesRoot_rtrancl:
  "reachesRoot ns k i \<Longrightarrow> (i, 0) \<in> (parentRel ns)\<^sup>*"
proof (induction k arbitrary: i)
  case 0 then show ?case by simp
next
  case (Suc k)
  show ?case
  proof (cases "parentId (ns ! i)")
    case None then show ?thesis using Suc(2) by simp
  next
    case (Some p)
    then have "reachesRoot ns k p" "(i, p) \<in> parentRel ns" using Suc(2) by (simp_all add: parentRel_iff)
    then show ?thesis using Suc(1) by (meson converse_rtrancl_into_rtrancl)
  qed
qed

lemma root_ancestor: "structOk ns \<Longrightarrow> i < length ns \<Longrightarrow> (i, 0) \<in> (parentRel ns)\<^sup>*"
  using reachesRoot_all reachesRoot_rtrancl by blast

lemma dist_pts_nonneg: "0 \<le> dist_pts p q"
  by (simp add: dist_pts_def)

lemma cost_anc_le:
  "(i, a) \<in> (parentRel ns)\<^sup>* \<Longrightarrow> costOk ns \<Longrightarrow> cost (ns ! a) \<le> cost (ns ! i)"
proof (induction rule: rtrancl_induct)
  case base then show ?case by simp
next
  case (step y z)
  then have "cost (ns ! y) = cost (ns ! z) + dist_pts (ns ! z) (ns ! y)"
    by (simp add: costOk_def parentRel_iff)
  then show ?case using step dist_pts_nonneg[of "ns ! z" "ns ! y"] by linarith
qed

lemma cost_nonneg: "structOk ns \<Longrightarrow> costOk ns \<Longrightarrow> i < length ns \<Longrightarrow> 0 \<le> cost (ns ! i)"
  using cost_anc_le[OF root_ancestor, of ns i] by (simp add: costOk_def)

section \<open>Stores that differ in costs only\<close>

lemma sameStruct_refl: "sameStruct ns ns"
  by (simp add: sameStruct_def)

lemma sameStruct_length: "sameStruct ns ns' \<Longrightarrow> length ns' = length ns"
  by (simp add: sameStruct_def)

lemma sameStruct_fields:
  assumes "sameStruct ns ns'" "i < length ns"
  shows "parentId (ns' ! i) = parentId (ns ! i)" "children (ns' ! i) = children (ns ! i)"
    "nid (ns' ! i) = nid (ns ! i)" "px (ns' ! i) = px (ns ! i)" "py (ns' ! i) = py (ns ! i)"
proof -
  have e: "ns' ! i = (ns ! i)\<lparr>cost := cost (ns' ! i)\<rparr>" using assms by (simp add: sameStruct_def)
  show "parentId (ns' ! i) = parentId (ns ! i)" by (subst e) simp
  show "children (ns' ! i) = children (ns ! i)" by (subst e) simp
  show "nid (ns' ! i) = nid (ns ! i)" by (subst e) simp
  show "px (ns' ! i) = px (ns ! i)" by (subst e) simp
  show "py (ns' ! i) = py (ns ! i)" by (subst e) simp
qed

lemma sameStruct_trans:
  assumes "sameStruct ns ns'" "sameStruct ns' ns''"
  shows "sameStruct ns ns''"
proof -
  have l: "length ns' = length ns" "length ns'' = length ns"
    using assms by (simp_all add: sameStruct_def)
  have "ns'' ! i = (ns ! i)\<lparr>cost := cost (ns'' ! i)\<rparr>" if i: "i < length ns" for i
  proof -
    have a: "ns' ! i = (ns ! i)\<lparr>cost := cost (ns' ! i)\<rparr>"
      using assms(1) i by (simp add: sameStruct_def)
    have b: "ns'' ! i = (ns' ! i)\<lparr>cost := cost (ns'' ! i)\<rparr>"
      using assms(2) i l by (simp add: sameStruct_def)
    show ?thesis by (subst b, subst a) simp
  qed
  then show ?thesis using l by (simp add: sameStruct_def)
qed

lemma sameStruct_update:
  "i < length ns \<Longrightarrow> sameStruct ns (ns[i := (ns ! i)\<lparr>cost := v\<rparr>])"
  by (simp add: sameStruct_def nth_list_update)

lemma sameStruct_parentRel: "sameStruct ns ns' \<Longrightarrow> parentRel ns' = parentRel ns"
  by (auto simp: parentRel_def sameStruct_length sameStruct_fields)

lemma sameStruct_desc: "sameStruct ns ns' \<Longrightarrow> desc ns' n = desc ns n"
  by (simp add: desc_def sameStruct_parentRel)

lemma sameStruct_dist:
  "sameStruct ns ns' \<Longrightarrow> i < length ns \<Longrightarrow> j < length ns \<Longrightarrow>
     dist_pts (ns' ! i) (ns' ! j) = dist_pts (ns ! i) (ns ! j)"
  by (simp add: dist_pts_def sameStruct_fields)

lemma sameStruct_structOk:
  assumes "sameStruct ns ns'" "structOk ns"
  shows "structOk ns'"
proof -
  have l: "length ns' = length ns" using assms(1) by (rule sameStruct_length)
  have ne: "ns \<noteq> []" using assms(2) by (simp add: structOk_def)
  then have z: "0 < length ns" by simp
  have ne': "ns' \<noteq> []" using l ne by auto
  note f = sameStruct_fields[OF assms(1)]
  show ?thesis
    using assms(2) ne' unfolding structOk_def
    by (simp add: sameStruct_parentRel[OF assms(1)] l f f(1)[OF z] cong: conj_cong)
qed

lemma desc_finite:
  assumes "structOk ns" "n < length ns"
  shows "finite (desc ns n)" "desc ns n \<subseteq> {..<length ns}"
proof -
  show sub: "desc ns n \<subseteq> {..<length ns}"
  proof
    fix x assume "x \<in> desc ns n"
    then have "(x, n) \<in> (parentRel ns)\<^sup>*" by (simp add: desc_def)
    then show "x \<in> {..<length ns}"
      using assms(2) parentRel_trancl_lt[OF _ assms(1)] by (auto simp: rtrancl_eq_or_trancl)
  qed
  show "finite (desc ns n)" using sub finite_subset by blast
qed

lemma desc_child_card:
  assumes "structOk ns" "(c, n) \<in> parentRel ns"
  shows "card (desc ns c) < card (desc ns n)"
proof -
  have n: "n < length ns" using parentRel_field[OF assms] by simp
  have "n \<notin> desc ns c"
  proof
    assume "n \<in> desc ns c"
    then have "(n, n) \<in> (parentRel ns)\<^sup>+" using assms(2) by (simp add: desc_def rtrancl_into_trancl1)
    then show False using structOk_acyclic[OF assms(1)] by (simp add: acyclic_def)
  qed
  moreover have "n \<in> desc ns n" by (simp add: desc_def)
  moreover have "desc ns c \<subseteq> desc ns n"
    using assms(2) by (auto simp: desc_def intro: rtrancl_into_rtrancl)
  ultimately have "desc ns c \<subset> desc ns n" by blast
  then show ?thesis using desc_finite(1)[OF assms(1) n] by (rule psubset_card_mono[rotated])
qed

lemma children_parentRel:
  "structOk ns \<Longrightarrow> n < length ns \<Longrightarrow> c \<in> set (children (ns ! n)) \<longleftrightarrow> (c, n) \<in> parentRel ns"
  by (simp add: structOk_def parentRel_iff)

lemma no_self_anc: "structOk ns \<Longrightarrow> (x, x) \<notin> (parentRel ns)\<^sup>+"
  using structOk_acyclic by (auto simp: acyclic_def)

section \<open>The cost cascade\<close>

lemma edgeOk_transfer:
  assumes "sameStruct ns ns'" "structOk ns" "x < length ns" "edgeOk ns x"
    "cost (ns' ! x) = cost (ns ! x)"
    "\<And>q. parentId (ns ! x) = Some q \<Longrightarrow> cost (ns' ! q) = cost (ns ! q)"
  shows "edgeOk ns' x"
  unfolding edgeOk_def
proof (intro allI impI)
  fix p assume p: "parentId (ns' ! x) = Some p"
  then have p0: "parentId (ns ! x) = Some p" using sameStruct_fields(1)[OF assms(1,3)] by simp
  then have pl: "p < length ns" using structOk_parent_lt[OF assms(2,3)] by simp
  have "cost (ns ! x) = cost (ns ! p) + dist_pts (ns ! p) (ns ! x)"
    using assms(4) p0 by (simp add: edgeOk_def)
  then show "cost (ns' ! x) = cost (ns' ! p) + dist_pts (ns' ! p) (ns' ! x)"
    using assms(5) assms(6)[OF p0] sameStruct_dist[OF assms(1) pl assms(3)] by simp
qed

lemma updateCostLoop_spec:
  assumes IH: "\<And>c ms. structOk ms \<Longrightarrow> c < length ms \<Longrightarrow> card (desc ms c) \<le> fuel \<Longrightarrow>
      \<exists>ms'. updateCost fuel c ms = Inr ms' \<and> updPost ms {x. (x, c) \<in> (parentRel ms)\<^sup>+} ms'"
  shows "structOk ns \<Longrightarrow> n < length ns \<Longrightarrow> card (desc ns n) \<le> Suc fuel \<Longrightarrow>
      set cs \<subseteq> set (children (ns ! n)) \<Longrightarrow>
      \<exists>ns'. updateCostLoop fuel n cs ns = Inr ns' \<and> updPost ns (\<Union>c\<in>set cs. desc ns c) ns'"
proof (induction cs arbitrary: ns)
  case Nil
  then show ?case by (simp add: updPost_def sameStruct_refl)
next
  case (Cons c cs)
  note so = Cons.prems(1) and n = Cons.prems(2) and cd = Cons.prems(3)
  let ?P = "parentRel ns"
  have cn: "(c, n) \<in> ?P" using Cons.prems(4) children_parentRel[OF so n] by simp
  then have c: "c < length ns" and pc: "parentId (ns ! c) = Some n" by (simp_all add: parentRel_iff)
  define ns1 where "ns1 = ns[c := (ns ! c)\<lparr>cost := cost (ns ! n) + dist_pts (ns ! n) (ns ! c)\<rparr>]"
  have ss1: "sameStruct ns ns1" unfolding ns1_def using c by (rule sameStruct_update)
  have so1: "structOk ns1" using ss1 so by (rule sameStruct_structOk)
  have P1: "parentRel ns1 = ?P" using ss1 by (rule sameStruct_parentRel)
  have l1: "length ns1 = length ns" by (simp add: ns1_def)
  have "card (desc ns1 c) \<le> fuel"
    using desc_child_card[OF so cn] cd by (simp add: sameStruct_desc[OF ss1])
  from IH[OF so1 _ this] c l1 obtain ns2 where
    uc: "updateCost fuel c ns1 = Inr ns2" and post2: "updPost ns1 {x. (x, c) \<in> ?P\<^sup>+} ns2"
    by (auto simp: P1)
  have ss2: "sameStruct ns1 ns2" using post2 by (simp add: updPost_def)
  have ss02: "sameStruct ns ns2" using ss1 ss2 by (rule sameStruct_trans)
  have so2: "structOk ns2" using ss02 so by (rule sameStruct_structOk)
  have l2: "length ns2 = length ns" using ss02 by (rule sameStruct_length)
  have d2: "desc ns2 = desc ns" using sameStruct_desc[OF ss02] by auto
  have ch2: "children (ns2 ! n) = children (ns ! n)" using sameStruct_fields(2)[OF ss02 n] .
  have "\<exists>ns'. updateCostLoop fuel n cs ns2 = Inr ns' \<and> updPost ns2 (\<Union>c\<in>set cs. desc ns2 c) ns'"
    using Cons.IH[OF so2] n cd Cons.prems(4) by (simp add: l2 d2 ch2)
  then obtain ns' where
    lp: "updateCostLoop fuel n cs ns2 = Inr ns'" and post3: "updPost ns2 (\<Union>c\<in>set cs. desc ns c) ns'"
    by (auto simp: d2)
  have ss3: "sameStruct ns2 ns'" using post3 by (simp add: updPost_def)
  have ss: "sameStruct ns ns'" using ss02 ss3 by (rule sameStruct_trans)
  have run: "updateCostLoop fuel n (c # cs) ns = Inr ns'"
    using c uc lp by (simp add: Let_def ns1_def[symmetric])
  have fr3: "\<And>x. x < length ns \<Longrightarrow> x \<notin> (\<Union>c\<in>set cs. desc ns c) \<Longrightarrow> cost (ns' ! x) = cost (ns2 ! x)"
    using post3 by (simp add: updPost_def l2)
  have fr2: "\<And>x. x < length ns \<Longrightarrow> (x, c) \<notin> ?P\<^sup>+ \<Longrightarrow> cost (ns2 ! x) = cost (ns1 ! x)"
    using post2 by (simp add: updPost_def l1)
  have fr1: "\<And>x. x \<noteq> c \<Longrightarrow> cost (ns1 ! x) = cost (ns ! x)"
    by (simp add: ns1_def)
  have c1: "cost (ns1 ! c) = cost (ns ! n) + dist_pts (ns ! n) (ns ! c)"
    using c by (simp add: ns1_def)
  have nself: "\<And>x. (x, x) \<notin> ?P\<^sup>+" using no_self_anc[OF so] .
  have n_notin_cs: "n \<notin> (\<Union>c\<in>set cs. desc ns c)"
  proof
    assume "n \<in> (\<Union>c\<in>set cs. desc ns c)"
    then obtain c' where c': "c' \<in> set cs" "(n, c') \<in> ?P\<^sup>*" by (auto simp: desc_def)
    then have "(c', n) \<in> ?P" using Cons.prems(4) children_parentRel[OF so n] by auto
    then have "(n, n) \<in> ?P\<^sup>+" using c'(2) by (rule rtrancl_into_trancl1[rotated])
    then show False using nself by simp
  qed
  have n_not_c: "(n, c) \<notin> ?P\<^sup>+"
  proof
    assume "(n, c) \<in> ?P\<^sup>+"
    then have "(n, n) \<in> ?P\<^sup>+" using cn by (rule trancl_into_trancl)
    then show False using nself by simp
  qed
  have nc: "n \<noteq> c" using cn nself by auto
  have costn: "cost (ns' ! n) = cost (ns ! n)"
    using fr3[OF n n_notin_cs] fr2[OF n n_not_c] fr1[OF nc] by simp
  have frame: "\<forall>x<length ns. x \<notin> (\<Union>c\<in>set (c # cs). desc ns c) \<longrightarrow> cost (ns' ! x) = cost (ns ! x)"
  proof (intro allI impI)
    fix x assume x: "x < length ns" and xn: "x \<notin> (\<Union>c\<in>set (c # cs). desc ns c)"
    have a: "x \<notin> (\<Union>c\<in>set cs. desc ns c)" using xn by simp
    have "(x, c) \<notin> ?P\<^sup>*" using xn by (simp add: desc_def)
    then have b: "(x, c) \<notin> ?P\<^sup>+" and d: "x \<noteq> c" by (auto simp: rtrancl_eq_or_trancl)
    show "cost (ns' ! x) = cost (ns ! x)" using fr3[OF x a] fr2[OF x b] fr1[OF d] by simp
  qed
  have est: "\<forall>x\<in>(\<Union>c\<in>set (c # cs). desc ns c). edgeOk ns' x"
  proof
    fix x assume xin: "x \<in> (\<Union>c\<in>set (c # cs). desc ns c)"
    show "edgeOk ns' x"
    proof (cases "x \<in> (\<Union>c\<in>set cs. desc ns c)")
      case True
      then show ?thesis using post3 unfolding updPost_def by blast
    next
      case False
      then have xc: "(x, c) \<in> ?P\<^sup>*" using xin by (simp add: desc_def)
      have xl: "x < length ns" using desc_finite(2)[OF so c] xc by (auto simp: desc_def)
      show ?thesis
      proof (cases "x = c")
        case True
        have "parentId (ns' ! c) = Some n" using sameStruct_fields(1)[OF ss c] pc by simp
        moreover have "cost (ns' ! c) = cost (ns' ! n) + dist_pts (ns' ! n) (ns' ! c)"
          using fr3[OF c] False True fr2[OF c nself] c1 costn sameStruct_dist[OF ss n c] by simp
        ultimately show ?thesis using True by (simp add: edgeOk_def)
      next
        case xnc: False
        then have xcp: "(x, c) \<in> ?P\<^sup>+" using xc by (auto simp: rtrancl_eq_or_trancl)
        then have e2: "edgeOk ns2 x" using post2 by (simp add: updPost_def)
        have cx: "cost (ns' ! x) = cost (ns2 ! x)" using fr3[OF xl False] .
        have cq: "cost (ns' ! q) = cost (ns2 ! q)" if q: "parentId (ns2 ! x) = Some q" for q
        proof -
          have q0: "parentId (ns ! x) = Some q" using q sameStruct_fields(1)[OF ss02 xl] by simp
          then have xq: "(x, q) \<in> ?P" using xl by (simp add: parentRel_iff)
          have ql: "q < length ns" using structOk_parent_lt[OF so xl q0] .
          have "q \<notin> (\<Union>c\<in>set cs. desc ns c)"
          proof
            assume "q \<in> (\<Union>c\<in>set cs. desc ns c)"
            then obtain c' where c': "c' \<in> set cs" "(q, c') \<in> ?P\<^sup>*" by (auto simp: desc_def)
            then have "(x, c') \<in> ?P\<^sup>*" using xq by (meson converse_rtrancl_into_rtrancl)
            then show False using False c'(1) by (auto simp: desc_def)
          qed
          then show ?thesis using fr3[OF ql] by simp
        qed
        show ?thesis
          using edgeOk_transfer[OF ss3 so2 _ e2 cx cq] xl l2 by simp
      qed
    qed
  qed
  show ?case using run ss frame est unfolding updPost_def by blast
qed

lemma strict_desc_children:
  assumes "structOk ns" "n < length ns"
  shows "(\<Union>c\<in>set (children (ns ! n)). desc ns c) = {x. (x, n) \<in> (parentRel ns)\<^sup>+}"
proof (intro set_eqI iffI)
  fix x assume "x \<in> (\<Union>c\<in>set (children (ns ! n)). desc ns c)"
  then obtain c where "c \<in> set (children (ns ! n))" "(x, c) \<in> (parentRel ns)\<^sup>*"
    by (auto simp: desc_def)
  then show "x \<in> {x. (x, n) \<in> (parentRel ns)\<^sup>+}"
    using children_parentRel[OF assms] by (auto intro: rtrancl_into_trancl1)
next
  fix x assume "x \<in> {x. (x, n) \<in> (parentRel ns)\<^sup>+}"
  then obtain c where "(x, c) \<in> (parentRel ns)\<^sup>*" "(c, n) \<in> parentRel ns"
    by (auto dest: tranclD2)
  then show "x \<in> (\<Union>c\<in>set (children (ns ! n)). desc ns c)"
    using children_parentRel[OF assms] by (auto simp: desc_def)
qed

lemma updateCost_spec:
  "structOk ns \<Longrightarrow> n < length ns \<Longrightarrow> card (desc ns n) \<le> fuel \<Longrightarrow>
     \<exists>ns'. updateCost fuel n ns = Inr ns' \<and> updPost ns {x. (x, n) \<in> (parentRel ns)\<^sup>+} ns'"
proof (induction fuel arbitrary: n ns)
  case 0
  have "n \<in> desc ns n" by (simp add: desc_def)
  then have "0 < card (desc ns n)" using desc_finite(1)[OF 0(1,2)] card_gt_0_iff by blast
  then show ?case using 0(3) by simp
next
  case (Suc fuel)
  have "\<exists>ns'. updateCostLoop fuel n (children (ns ! n)) ns = Inr ns'
      \<and> updPost ns (\<Union>c\<in>set (children (ns ! n)). desc ns c) ns'"
    by (rule updateCostLoop_spec[OF Suc.IH Suc.prems]) simp_all
  then show ?case using Suc.prems(2) by (simp add: strict_desc_children[OF Suc.prems(1,2)])
qed

lemma updateCost_spec_length:
  assumes "structOk ns" "n < length ns" "length ns \<le> fuel"
  shows "\<exists>ns'. updateCost fuel n ns = Inr ns' \<and> updPost ns {x. (x, n) \<in> (parentRel ns)\<^sup>+} ns'"
proof -
  have "card (desc ns n) \<le> card {..<length ns}"
    using desc_finite(2)[OF assms(1,2)] by (intro card_mono) simp_all
  then show ?thesis using updateCost_spec[OF assms(1,2)] assms(3) by simp
qed

section \<open>Re-parenting a neighbour\<close>

lemma reparent_relink:
  "parentId (ns ! nb) = Some oldP \<Longrightarrow> oldP < length ns \<Longrightarrow>
     reparent fuel new nb newCost ns
       = updateCost fuel (nid (relink new nb oldP newCost ns ! nb)) (relink new nb oldP newCost ns)"
  by (simp add: reparent_def relink_def Let_def)

lemma relink_length: "length (relink new nb oldP newCost ns) = length ns"
  by (simp add: relink_def Let_def)

lemma relink_nth:
  assumes "new < length ns" "nb < length ns" "oldP < length ns"
    "new \<noteq> nb" "oldP \<noteq> nb" "oldP \<noteq> new" "nid (ns ! nb) = nb" "i < length ns"
  shows "relink new nb oldP newCost ns ! i =
     (if i = new then (ns ! new)\<lparr>children := children (ns ! new) @ [nb]\<rparr>
      else if i = nb then (ns ! nb)\<lparr>parentId := Some new, cost := newCost\<rparr>
      else if i = oldP then (ns ! oldP)\<lparr>children := filter (\<lambda>i. i \<noteq> nb) (children (ns ! oldP))\<rparr>
      else ns ! i)"
  using assms by (simp add: relink_def Let_def nth_list_update)

lemma relinkPre_facts:
  assumes "relinkPre ns new nb oldP"
  shows "structOk ns" "new < length ns" "nb < length ns" "oldP < length ns"
    "new \<noteq> nb" "oldP \<noteq> nb" "oldP \<noteq> new" "nid (ns ! nb) = nb" "parentId (ns ! nb) = Some oldP"
    "nb \<noteq> 0" "(new, nb) \<notin> (parentRel ns)\<^sup>*"
proof -
  show so: "structOk ns" and n: "new < length ns" and b: "nb < length ns"
    and p: "parentId (ns ! nb) = Some oldP" and "oldP \<noteq> new" and na: "(new, nb) \<notin> (parentRel ns)\<^sup>*"
    using assms by (simp_all add: relinkPre_def)
  show "oldP < length ns" using structOk_parent_lt[OF so b p] .
  show "new \<noteq> nb" using na by auto
  have "(nb, oldP) \<in> parentRel ns" using b p by (simp add: parentRel_iff)
  then show "oldP \<noteq> nb" using no_self_anc[OF so, of nb] by auto
  show "nid (ns ! nb) = nb" using so b by (simp add: structOk_def)
  show "nb \<noteq> 0"
  proof
    assume "nb = 0"
    then show False using so p by (simp add: structOk_def)
  qed
qed

lemma relink_nth':
  assumes "relinkPre ns new nb oldP" "i < length ns"
  shows "relink new nb oldP newCost ns ! i =
     (if i = new then (ns ! new)\<lparr>children := children (ns ! new) @ [nb]\<rparr>
      else if i = nb then (ns ! nb)\<lparr>parentId := Some new, cost := newCost\<rparr>
      else if i = oldP then (ns ! oldP)\<lparr>children := filter (\<lambda>i. i \<noteq> nb) (children (ns ! oldP))\<rparr>
      else ns ! i)"
  using relinkPre_facts[OF assms(1)] assms(2) by (intro relink_nth) simp_all

lemma relink_fields:
  assumes "relinkPre ns new nb oldP" "i < length ns"
  shows "parentId (relink new nb oldP newCost ns ! i) = (if i = nb then Some new else parentId (ns ! i))"
    "cost (relink new nb oldP newCost ns ! i) = (if i = nb then newCost else cost (ns ! i))"
    "nid (relink new nb oldP newCost ns ! i) = nid (ns ! i)"
    "px (relink new nb oldP newCost ns ! i) = px (ns ! i)"
    "py (relink new nb oldP newCost ns ! i) = py (ns ! i)"
    "children (relink new nb oldP newCost ns ! i) =
       (if i = new then children (ns ! new) @ [nb]
        else if i = oldP then filter (\<lambda>i. i \<noteq> nb) (children (ns ! oldP))
        else children (ns ! i))"
  using relinkPre_facts[OF assms(1)] by (simp_all add: relink_nth'[OF assms])

lemma relink_parentRel:
  assumes "relinkPre ns new nb oldP"
  shows "parentRel (relink new nb oldP newCost ns) = insert (nb, new) (parentRel ns - {(nb, oldP)})"
  using relinkPre_facts[OF assms]
  by (auto simp: parentRel_def relink_length relink_fields(1)[OF assms] split: if_splits)

lemma relink_acyclic:
  assumes "relinkPre ns new nb oldP"
  shows "acyclic (parentRel (relink new nb oldP newCost ns))"
proof -
  have a: "acyclic (parentRel ns - {(nb, oldP)})"
    using structOk_acyclic[OF relinkPre_facts(1)[OF assms]] by (rule acyclic_subset) auto
  have "(new, nb) \<notin> (parentRel ns - {(nb, oldP)})\<^sup>*"
    using relinkPre_facts(11)[OF assms] rtrancl_mono[of "parentRel ns - {(nb, oldP)}" "parentRel ns"]
    by auto
  then show ?thesis using a by (simp add: relink_parentRel[OF assms] acyclic_insert)
qed

lemma relink_structOk:
  assumes "relinkPre ns new nb oldP"
  shows "structOk (relink new nb oldP newCost ns)"
proof -
  note f = relinkPre_facts[OF assms]
  note rf = relink_fields[OF assms]
  have so: "structOk ns" by (rule f(1))
  have ne: "ns \<noteq> []" using so by (simp add: structOk_def)
  then have z: "0 < length ns" by simp
  let ?r = "relink new nb oldP newCost ns"
  have 1: "?r \<noteq> []" using ne relink_length[of new nb oldP newCost ns] by auto
  have 2: "\<forall>i<length ?r. nid (?r ! i) = i" using so by (simp add: relink_length rf structOk_def)
  have 3: "parentId (?r ! 0) = None" using so f(10) by (simp add: rf(1)[OF z] structOk_def)
  have 4: "\<forall>i<length ?r. i \<noteq> 0 \<longrightarrow> (\<exists>p<length ?r. parentId (?r ! i) = Some p)"
    using so f(2) by (simp add: relink_length rf structOk_def)
  have nbn: "nb \<notin> set (children (ns ! new))"
    using so f(2,3,7,9) by (simp add: structOk_def)
  have 5: "\<forall>i<length ?r. distinct (children (?r ! i))"
    using so nbn f(2,3,7,9) by (simp add: relink_length rf structOk_def)
  have 6: "\<forall>i<length ?r. set (children (?r ! i)) = {c. c < length ?r \<and> parentId (?r ! c) = Some i}"
  proof (intro allI impI)
    fix i assume "i < length ?r"
    then have i: "i < length ns" by (simp add: relink_length)
    have s: "set (children (ns ! i)) = {c. c < length ns \<and> parentId (ns ! c) = Some i}"
      using so i by (simp add: structOk_def)
    have so': "set (children (ns ! oldP)) = {c. c < length ns \<and> parentId (ns ! c) = Some oldP}"
      using so f(4) by (simp add: structOk_def)
    have sn: "set (children (ns ! new)) = {c. c < length ns \<and> parentId (ns ! c) = Some new}"
      using so f(2) by (simp add: structOk_def)
    show "set (children (?r ! i)) = {c. c < length ?r \<and> parentId (?r ! c) = Some i}"
    proof -
      have R: "{c. c < length ?r \<and> parentId (?r ! c) = Some i}
          = {c. c < length ns \<and> (if c = nb then Some new else parentId (ns ! c)) = Some i}"
        by (simp add: relink_length rf(1) cong: conj_cong)
      consider "i = new" | "i \<noteq> new" "i = oldP" | "i \<noteq> new" "i \<noteq> oldP" by blast
      then show ?thesis
      proof cases
        case 1
        have "set (children (?r ! i)) = insert nb (set (children (ns ! new)))"
          using 1 i by (simp add: rf(6))
        also have "\<dots> = {c. c < length ns \<and> (if c = nb then Some new else parentId (ns ! c)) = Some i}"
          using 1 f(3,7,9) by (auto simp: sn)
        finally show ?thesis by (simp only: R)
      next
        case 2
        have "set (children (?r ! i)) = set (children (ns ! oldP)) - {nb}"
          using 2 i by (auto simp: rf(6))
        also have "\<dots> = {c. c < length ns \<and> (if c = nb then Some new else parentId (ns ! c)) = Some i}"
          using 2 f(3,7,9) by (auto simp: so')
        finally show ?thesis by (simp only: R)
      next
        case 3
        have "set (children (?r ! i)) = set (children (ns ! i))"
          using 3 i by (simp add: rf(6))
        also have "\<dots> = {c. c < length ns \<and> (if c = nb then Some new else parentId (ns ! c)) = Some i}"
          using 3 f(3,7,9) by (auto simp: s)
        finally show ?thesis by (simp only: R)
      qed
    qed
  qed
  show ?thesis unfolding structOk_def using 1 2 3 4 5 6 relink_acyclic[OF assms] by blast
qed

lemma relink_dist:
  assumes "relinkPre ns new nb oldP" "i < length ns" "j < length ns"
  shows "dist_pts (relink new nb oldP newCost ns ! i) (relink new nb oldP newCost ns ! j)
     = dist_pts (ns ! i) (ns ! j)"
  by (simp add: dist_pts_def relink_fields(4,5)[OF assms(1)] assms(2,3))

lemma costOk_edge:
  "costOk ns \<Longrightarrow> c < length ns \<Longrightarrow> parentId (ns ! c) = Some p \<Longrightarrow>
     cost (ns ! c) = cost (ns ! p) + dist_pts (ns ! p) (ns ! c)"
  by (simp add: costOk_def)

lemma reparent_ok:
  assumes so: "structOk ns" and co: "costOk ns" and n: "new < length ns" and b: "nb < length ns"
    and lt: "cost (ns ! new) + dist_pts (ns ! new) (ns ! nb) < cost (ns ! nb)"
    and fu: "length ns \<le> fuel"
  shows "\<exists>ns'. reparent fuel new nb (cost (ns ! new) + dist_pts (ns ! new) (ns ! nb)) ns = Inr ns'
      \<and> reparentPost ns new nb ns'"
proof -
  define newCost where "newCost = cost (ns ! new) + dist_pts (ns ! new) (ns ! nb)"
  let ?P = "parentRel ns"
  have nn: "0 \<le> newCost"
    using cost_nonneg[OF so co n] dist_pts_nonneg[of "ns ! new" "ns ! nb"] by (simp add: newCost_def)
  have lt': "newCost < cost (ns ! nb)" using lt by (simp add: newCost_def)
  have "nb \<noteq> 0"
  proof
    assume "nb = 0"
    then show False using nn lt' co by (simp add: costOk_def)
  qed
  then obtain oldP where op: "parentId (ns ! nb) = Some oldP" using so b unfolding structOk_def by blast
  have na: "(new, nb) \<notin> ?P\<^sup>*"
  proof
    assume "(new, nb) \<in> ?P\<^sup>*"
    then have "cost (ns ! nb) \<le> cost (ns ! new)" using co by (rule cost_anc_le)
    then show False using lt dist_pts_nonneg[of "ns ! new" "ns ! nb"] by linarith
  qed
  have opn: "oldP \<noteq> new"
  proof
    assume "oldP = new"
    then have "cost (ns ! nb) = newCost" using costOk_edge[OF co b op] by (simp add: newCost_def)
    then show False using lt' by simp
  qed
  have pre: "relinkPre ns new nb oldP" using so n b op opn na by (simp add: relinkPre_def)
  note f = relinkPre_facts[OF pre]
  define r where "r = relink new nb oldP newCost ns"
  have lr: "length r = length ns" by (simp add: r_def relink_length)
  have sr: "structOk r" unfolding r_def using pre by (rule relink_structOk)
  note rf = relink_fields[OF pre, of _ newCost, folded r_def]
  have rd: "\<And>i j. i < length ns \<Longrightarrow> j < length ns \<Longrightarrow> dist_pts (r ! i) (r ! j) = dist_pts (ns ! i) (ns ! j)"
    unfolding r_def using pre by (rule relink_dist)
  let ?R = "parentRel r"
  let ?D = "{x. (x, nb) \<in> ?R\<^sup>+}"
  have run: "reparent fuel new nb newCost ns = updateCost fuel nb r"
    using reparent_relink[OF op f(4), of fuel new newCost] f(8) b by (simp add: r_def[symmetric] rf(3))
  obtain ns4 where uc: "updateCost fuel nb r = Inr ns4" and post: "updPost r ?D ns4"
    using updateCost_spec_length[OF sr, of nb fuel] b fu lr by auto
  have ss: "sameStruct r ns4" using post by (simp add: updPost_def)
  have l4: "length ns4 = length ns" using sameStruct_length[OF ss] lr by simp
  have s4: "structOk ns4" using ss sr by (rule sameStruct_structOk)
  have frame: "\<And>x. x < length ns \<Longrightarrow> x \<notin> ?D \<Longrightarrow> cost (ns4 ! x) = cost (r ! x)"
    using post by (simp add: updPost_def lr)
  have est: "\<And>x. x \<in> ?D \<Longrightarrow> edgeOk ns4 x" using post by (simp add: updPost_def)
  have nself: "\<And>x. (x, x) \<notin> ?R\<^sup>+" using no_self_anc[OF sr] .
  have nbD: "nb \<notin> ?D" using nself by simp
  have Dl: "\<And>x. x \<in> ?D \<Longrightarrow> x < length ns" using parentRel_trancl_lt[OF _ sr] lr by auto
  have d4: "\<And>i j. i < length ns \<Longrightarrow> j < length ns \<Longrightarrow> dist_pts (ns4 ! i) (ns4 ! j) = dist_pts (ns ! i) (ns ! j)"
    using sameStruct_dist[OF ss] rd lr by simp
  have p4: "\<And>x. x < length ns \<Longrightarrow> parentId (ns4 ! x) = (if x = nb then Some new else parentId (ns ! x))"
    using sameStruct_fields(1)[OF ss] rf(1) lr by simp
  have edge_r: "edgeOk r c" if c: "c < length ns" and cD: "c \<notin> ?D" for c
    unfolding edgeOk_def
  proof (intro allI impI)
    fix p assume p: "parentId (r ! c) = Some p"
    show "cost (r ! c) = cost (r ! p) + dist_pts (r ! p) (r ! c)"
    proof (cases "c = nb")
      case True
      then have "p = new" using p rf(1)[OF b] by simp
      then show ?thesis using True f(5) n b by (simp add: rf(2) rd newCost_def)
    next
      case False
      then have p0: "parentId (ns ! c) = Some p" using p rf(1)[OF c] by simp
      have pl: "p < length ns" using structOk_parent_lt[OF so c p0] .
      have "(c, p) \<in> ?R" using p c lr by (simp add: parentRel_iff)
      then have "p \<noteq> nb" using cD by auto
      then show ?thesis using False costOk_edge[OF co c p0] c pl by (simp add: rf(2) rd)
    qed
  qed
  have edge4: "edgeOk ns4 c" if c: "c < length ns" for c
  proof (cases "c \<in> ?D")
    case True then show ?thesis by (rule est)
  next
    case False
    have cq: "cost (ns4 ! q) = cost (r ! q)" if q: "parentId (r ! c) = Some q" for q
    proof -
      have cqR: "(c, q) \<in> ?R" using q c lr by (simp add: parentRel_iff)
      have ql: "q < length ns" using parentRel_field[OF sr cqR] lr by simp
      have "q \<notin> ?D"
      proof
        assume "q \<in> ?D"
        then have "(c, nb) \<in> ?R\<^sup>+" using cqR by (simp add: trancl_into_trancl2)
        then show False using False by simp
      qed
      then show ?thesis using frame[OF ql] by simp
    qed
    show ?thesis
      using edgeOk_transfer[OF ss sr _ edge_r[OF c False] frame[OF c False] cq] c lr by simp
  qed
  have z: "0 < length ns" using so by (simp add: structOk_def)
  have "0 \<notin> ?D"
  proof
    assume "0 \<in> ?D"
    then obtain y where "(0, y) \<in> ?R" by (auto dest: tranclD)
    then show False using sr by (simp add: parentRel_iff structOk_def)
  qed
  then have c0: "cost (ns4 ! 0) = 0"
    using frame[OF z] rf(2)[OF z] \<open>nb \<noteq> 0\<close> co by (simp add: costOk_def)
  have co4: "costOk ns4"
    unfolding costOk_def using c0 edge4 by (simp add: l4 edgeOk_def)
  have cnb: "cost (ns4 ! nb) = newCost" using frame[OF b nbD] rf(2)[OF b] by simp
  have strict: "cost (ns4 ! x) < cost (ns ! x)" if "(x, nb) \<in> ?R\<^sup>+" for x
    using that
  proof (induction rule: converse_trancl_induct)
    case (base y)
    then have y: "y < length ns" and py: "parentId (r ! y) = Some nb" using lr by (simp_all add: parentRel_iff)
    have "y \<noteq> nb" using base nself by auto
    then have p0: "parentId (ns ! y) = Some nb" using py rf(1)[OF y] by simp
    have "parentId (ns4 ! y) = Some nb" using p4[OF y] \<open>y \<noteq> nb\<close> p0 by simp
    then have "cost (ns4 ! y) = cost (ns4 ! nb) + dist_pts (ns4 ! nb) (ns4 ! y)"
      using costOk_edge[OF co4] y l4 by simp
    then show ?case using costOk_edge[OF co y p0] cnb lt' d4[OF b y] by simp
  next
    case (step y w)
    then have y: "y < length ns" and py: "parentId (r ! y) = Some w" using lr by (simp_all add: parentRel_iff)
    have "(y, nb) \<in> ?R\<^sup>+" using step(1,2) by (simp add: trancl_into_trancl2)
    then have "y \<noteq> nb" using nself by auto
    then have p0: "parentId (ns ! y) = Some w" using py rf(1)[OF y] by simp
    have wl: "w < length ns" using structOk_parent_lt[OF so y p0] .
    have "parentId (ns4 ! y) = Some w" using p4[OF y] \<open>y \<noteq> nb\<close> p0 by simp
    then have "cost (ns4 ! y) = cost (ns4 ! w) + dist_pts (ns4 ! w) (ns4 ! y)"
      using costOk_edge[OF co4] y l4 by simp
    then show ?case using costOk_edge[OF co y p0] step.IH d4[OF wl y] by simp
  qed
  have mono: "\<forall>x<length ns. cost (ns4 ! x) \<le> cost (ns ! x)"
  proof (intro allI impI)
    fix x assume x: "x < length ns"
    show "cost (ns4 ! x) \<le> cost (ns ! x)"
    proof (cases "x \<in> ?D")
      case True then show ?thesis using strict[of x] by simp
    next
      case False
      then show ?thesis using frame[OF x False] rf(2)[OF x] lt' by simp
    qed
  qed
  have "reparentPost ns new nb ns4"
    unfolding reparentPost_def using s4 co4 l4 mono cnb lt' p4 op opn by simp
  then show ?thesis using run uc by (simp add: newCost_def)
qed

section \<open>The scans of REWIRE and the writes of ADD_NODE\<close>

lemma rewirePost_refl: "structOk ns \<Longrightarrow> costOk ns \<Longrightarrow> rewirePost ns new ns"
  by (simp add: rewirePost_def)

lemma rewirePost_step:
  assumes "reparentPost ns new nb ns1" "rewirePost ns1 new ns'"
  shows "rewirePost ns new ns'"
proof -
  have l1: "length ns1 = length ns" using assms(1) by (simp add: reparentPost_def)
  have a: "\<And>x. x < length ns \<Longrightarrow> cost (ns1 ! x) \<le> cost (ns ! x)"
    using assms(1) by (simp add: reparentPost_def)
  have b: "cost (ns1 ! nb) < cost (ns ! nb)" using assms(1) by (simp add: reparentPost_def)
  have c: "\<And>x. x < length ns \<Longrightarrow> parentId (ns1 ! x) = (if x = nb then Some new else parentId (ns ! x))"
    using assms(1) by (simp add: reparentPost_def)
  have d: "\<And>x. x < length ns \<Longrightarrow> cost (ns' ! x) \<le> cost (ns1 ! x)"
    using assms(2) by (simp add: rewirePost_def l1)
  have e: "\<And>x. x < length ns \<Longrightarrow> parentId (ns' ! x) \<noteq> parentId (ns1 ! x) \<Longrightarrow>
      parentId (ns' ! x) = Some new \<and> cost (ns' ! x) < cost (ns1 ! x)"
    using assms(2) by (simp add: rewirePost_def l1)
  have "cost (ns' ! x) \<le> cost (ns ! x)
      \<and> (parentId (ns' ! x) \<noteq> parentId (ns ! x) \<longrightarrow>
           parentId (ns' ! x) = Some new \<and> cost (ns' ! x) < cost (ns ! x))"
    if x: "x < length ns" for x
  proof (intro conjI impI)
    show "cost (ns' ! x) \<le> cost (ns ! x)" using a[OF x] d[OF x] by linarith
  next
    assume ne: "parentId (ns' ! x) \<noteq> parentId (ns ! x)"
    show "parentId (ns' ! x) = Some new"
    proof (cases "parentId (ns' ! x) = parentId (ns1 ! x)")
      case True then show ?thesis using ne c[OF x] by (simp split: if_splits)
    next
      case False then show ?thesis using e[OF x] by simp
    qed
  next
    assume ne: "parentId (ns' ! x) \<noteq> parentId (ns ! x)"
    show "cost (ns' ! x) < cost (ns ! x)"
    proof (cases "parentId (ns' ! x) = parentId (ns1 ! x)")
      case True
      then have "x = nb" using ne c[OF x] by (simp split: if_splits)
      then show ?thesis using b d[OF x] by simp
    next
      case False then show ?thesis using e[OF x] a[OF x] by simp
    qed
  qed
  then show ?thesis using assms(2) by (simp add: rewirePost_def l1)
qed

lemma rewireLoop_ok:
  "structOk ns \<Longrightarrow> costOk ns \<Longrightarrow> new < length ns \<Longrightarrow> \<forall>j\<in>set nbrs. j < length ns \<Longrightarrow>
     length ns \<le> fuel \<Longrightarrow>
     \<exists>ns'. rewireLoop fuel obs new nbrs ns = Inr ns' \<and> rewirePost ns new ns'"
proof (induction nbrs arbitrary: ns)
  case Nil
  then show ?case by (simp add: rewirePost_refl)
next
  case (Cons nb nbrs)
  have b: "nb < length ns" using Cons.prems(4) by simp
  have rest: "\<exists>ns'. rewireLoop fuel obs new nbrs ns = Inr ns' \<and> rewirePost ns new ns'"
    using Cons.IH[OF Cons.prems(1,2,3) _ Cons.prems(5)] Cons.prems(4) by simp
  let ?nc = "cost (ns ! new) + dist_pts (ns ! new) (ns ! nb)"
  show ?case
  proof (cases "Some nb \<noteq> parentId (ns ! new) \<and> ?nc < cost (ns ! nb)
       \<and> \<not> checkCollision (ns ! new) (ns ! nb) obs")
    case False
    then show ?thesis using rest b by (auto simp: Let_def)
  next
    case True
    then have lt: "?nc < cost (ns ! nb)" by simp
    obtain ns1 where r1: "reparent fuel new nb ?nc ns = Inr ns1" and p1: "reparentPost ns new nb ns1"
      using reparent_ok[OF Cons.prems(1,2,3) b lt Cons.prems(5)] by blast
    have l1: "length ns1 = length ns" and s1: "structOk ns1" and c1: "costOk ns1"
      using p1 by (simp_all add: reparentPost_def)
    obtain ns' where r2: "rewireLoop fuel obs new nbrs ns1 = Inr ns'" and p2: "rewirePost ns1 new ns'"
      using Cons.IH[OF s1 c1] Cons.prems(3,4,5) l1 by auto
    have "rewireLoop fuel obs new (nb # nbrs) ns = Inr ns'"
      using True b r1 r2 by (simp add: Let_def)
    then show ?thesis using rewirePost_step[OF p1 p2] by simp
  qed
qed

lemma attach_length: "length (attach ns fp newPt) = Suc (length ns)"
  by (simp add: attach_def Let_def)

lemma attach_nth:
  assumes "fp < length ns"
  shows "i < length ns \<Longrightarrow> attach ns fp newPt ! i =
      (if i = fp then (ns ! fp)\<lparr>children := children (ns ! fp) @ [length ns]\<rparr> else ns ! i)"
    and "attach ns fp newPt ! length ns =
      \<lparr>px = px newPt, py = py newPt, nid = length ns, parentId = Some fp,
       cost = cost (ns ! fp) + dist_pts (ns ! fp) newPt, children = []\<rparr>"
  using assms by (simp_all add: attach_def Let_def nth_list_update nth_append)

lemma attach_fields:
  assumes "fp < length ns" "i < length ns"
  shows "parentId (attach ns fp newPt ! i) = parentId (ns ! i)"
    "cost (attach ns fp newPt ! i) = cost (ns ! i)"
    "nid (attach ns fp newPt ! i) = nid (ns ! i)"
    "px (attach ns fp newPt ! i) = px (ns ! i)"
    "py (attach ns fp newPt ! i) = py (ns ! i)"
    "children (attach ns fp newPt ! i) = (if i = fp then children (ns ! fp) @ [length ns] else children (ns ! i))"
  using assms by (simp_all add: attach_nth(1))

lemma attach_last:
  assumes "fp < length ns"
  shows "parentId (attach ns fp newPt ! length ns) = Some fp"
    "cost (attach ns fp newPt ! length ns) = cost (ns ! fp) + dist_pts (ns ! fp) newPt"
    "nid (attach ns fp newPt ! length ns) = length ns"
    "px (attach ns fp newPt ! length ns) = px newPt"
    "py (attach ns fp newPt ! length ns) = py newPt"
    "children (attach ns fp newPt ! length ns) = []"
  using assms by (simp_all add: attach_nth(2))

lemma attach_parentRel:
  assumes "fp < length ns"
  shows "parentRel (attach ns fp newPt) = insert (length ns, fp) (parentRel ns)"
  by (auto simp: parentRel_def attach_length less_Suc_eq attach_fields(1)[OF assms] attach_last(1)[OF assms])

lemma attach_structOk:
  assumes so: "structOk ns" and fp: "fp < length ns"
  shows "structOk (attach ns fp newPt)"
proof -
  let ?a = "attach ns fp newPt"
  note af = attach_fields[OF fp, of _ newPt]
  note al = attach_last[OF fp, of newPt]
  have la: "length ?a = Suc (length ns)" by (rule attach_length)
  have z: "0 < length ns" using so by (simp add: structOk_def)
  have 1: "?a \<noteq> []" using la by auto
  have 2: "\<forall>i<length ?a. nid (?a ! i) = i"
    using so by (simp add: la less_Suc_eq af al structOk_def)
  have 3: "parentId (?a ! 0) = None" using so by (simp add: af(1)[OF z] structOk_def)
  have 4: "\<forall>i<length ?a. i \<noteq> 0 \<longrightarrow> (\<exists>p<length ?a. parentId (?a ! i) = Some p)"
  proof (intro allI impI)
    fix i assume i: "i < length ?a" "i \<noteq> 0"
    show "\<exists>p<length ?a. parentId (?a ! i) = Some p"
    proof (cases "i = length ns")
      case True then show ?thesis using fp by (simp add: la al)
    next
      case False
      then have il: "i < length ns" using i la by simp
      then obtain p where "p < length ns" "parentId (ns ! i) = Some p"
        using so i(2) unfolding structOk_def by blast
      then show ?thesis using il by (auto simp: la af)
    qed
  qed
  have nin: "length ns \<notin> set (children (ns ! fp))" using so fp by (simp add: structOk_def)
  have 5: "\<forall>i<length ?a. distinct (children (?a ! i))"
    using so nin by (simp add: la less_Suc_eq af al structOk_def)
  have R: "{c. c < length ?a \<and> parentId (?a ! c) = Some i}
      = {c. c < length ns \<and> parentId (ns ! c) = Some i} \<union> (if i = fp then {length ns} else {})" for i
    by (auto simp: la less_Suc_eq af al)
  have 6: "\<forall>i<length ?a. set (children (?a ! i)) = {c. c < length ?a \<and> parentId (?a ! c) = Some i}"
  proof (intro allI impI)
    fix i assume i: "i < length ?a"
    show "set (children (?a ! i)) = {c. c < length ?a \<and> parentId (?a ! c) = Some i}"
    proof (cases "i = length ns")
      case True
      have "{c. c < length ns \<and> parentId (ns ! c) = Some (length ns)} = {}"
        using structOk_parent_lt[OF so] by auto
      then show ?thesis using True fp by (simp add: R al)
    next
      case False
      then have il: "i < length ns" using i la by simp
      have "set (children (ns ! i)) = {c. c < length ns \<and> parentId (ns ! c) = Some i}"
        using so il by (simp add: structOk_def)
      then show ?thesis using il by (auto simp: R af)
    qed
  qed
  have "(fp, length ns) \<notin> (parentRel ns)\<^sup>*"
    using parentRel_rtrancl_lt[OF _ so fp, of "length ns"] by auto
  then have 7: "acyclic (parentRel ?a)"
    using structOk_acyclic[OF so] by (simp add: attach_parentRel[OF fp] acyclic_insert)
  show ?thesis unfolding structOk_def using 1 2 3 4 5 6 7 by blast
qed

lemma attach_costOk:
  assumes so: "structOk ns" and co: "costOk ns" and fp: "fp < length ns"
  shows "costOk (attach ns fp newPt)"
proof -
  let ?a = "attach ns fp newPt"
  note af = attach_fields[OF fp, of _ newPt]
  note al = attach_last[OF fp, of newPt]
  have z: "0 < length ns" using so by (simp add: structOk_def)
  have d: "dist_pts (?a ! p) (?a ! c) = dist_pts (ns ! p) (ns ! c)" if "p < length ns" "c < length ns" for p c
    using that by (simp add: dist_pts_def af)
  have dl: "dist_pts (?a ! fp) (?a ! length ns) = dist_pts (ns ! fp) newPt"
    using fp by (simp add: dist_pts_def af al)
  have "cost (?a ! c) = cost (?a ! p) + dist_pts (?a ! p) (?a ! c)"
    if c: "c < length ?a" and p: "parentId (?a ! c) = Some p" for c p
  proof (cases "c = length ns")
    case True
    then have pf: "p = fp" using p by (simp add: al)
    have "cost (?a ! length ns) = cost (?a ! fp) + dist_pts (?a ! fp) (?a ! length ns)"
      by (simp only: al(2) af(2)[OF fp] dl)
    then show ?thesis using True pf by simp
  next
    case False
    then have cl: "c < length ns" using c by (simp add: attach_length)
    then have p0: "parentId (ns ! c) = Some p" using p by (simp add: af)
    have pl: "p < length ns" using structOk_parent_lt[OF so cl p0] .
    show ?thesis using costOk_edge[OF co cl p0] cl pl by (simp add: af d)
  qed
  then show ?thesis using co z by (simp add: costOk_def af)
qed

lemma inv_construct: "plannerInv (construct wd ht st gl obs prm alg)"
proof -
  let ?ns = "[\<lparr>px = px st, py = py st, nid = 0, parentId = None, cost = 0, children = []\<rparr>]"
  have "False" if "(c, p) \<in> parentRel ?ns" for c p
  proof -
    have c: "c = 0" and "parentId (?ns ! c) = Some p" using that by (auto simp: parentRel_def)
    then show False by (simp add: c)
  qed
  then have emp: "parentRel ?ns = {}" by auto
  have e: "{c. c < length ?ns \<and> parentId (?ns ! c) = Some i} = {}" for i
    using emp unfolding parentRel_def by blast
  have "structOk ?ns"
    unfolding structOk_def
  proof (intro conjI allI impI)
    fix i assume "i < length ?ns"
    then have i: "i = 0" by simp
    show "set (children (?ns ! i)) = {c. c < length ?ns \<and> parentId (?ns ! c) = Some i}"
      by (subst e) (simp add: i)
  qed (simp_all add: emp acyclic_def)
  moreover have "costOk ?ns" by (simp add: costOk_def)
  ultimately show ?thesis by (simp add: plannerInv_def construct_def scratchOk_def)
qed

lemma nearestLoop_lt:
  "(\<forall>j. idx = Some j \<longrightarrow> j < length ns) \<Longrightarrow> nearestLoop ns smp i md idx = Some k \<Longrightarrow> k < length ns"
proof (induction ns smp i md idx rule: nearestLoop.induct)
  case (1 ns smp i minDist nearestNodeIndex)
  show ?case
  proof (cases "i < length ns")
    case False
    then show ?thesis using "1.prems" by (simp add: nearestLoop.simps[of ns smp i])
  next
    case True
    show ?thesis
    proof (cases "lessInf (distOrInf (ns ! i) smp) minDist")
      case t: True
      have "nearestLoop ns smp (Suc i) (distOrInf (ns ! i) smp) (Some i) = Some k"
        using "1.prems"(2) True t by (simp add: nearestLoop.simps[of ns smp i])
      then show ?thesis using "1.IH"(1)[OF True refl t] True by simp
    next
      case f: False
      have "nearestLoop ns smp (Suc i) minDist nearestNodeIndex = Some k"
        using "1.prems"(2) True f by (simp add: nearestLoop.simps[of ns smp i])
      then show ?thesis using "1.IH"(2)[OF True refl f] "1.prems"(1) by simp
    qed
  qed
qed

lemma findNeighbors_lt: "j \<in> set (findNeighbors ns newPt radius) \<Longrightarrow> j < length ns"
  by (simp add: findNeighbors_def)

lemma chooseParentLoop_ok:
  "\<forall>j\<in>set nbrs. j < length ns \<Longrightarrow>
     \<exists>mc b. chooseParentLoop ns newPt obs nbrs minCost best = Inr (mc, b) \<and> (b = best \<or> b \<in> set nbrs)"
proof (induction nbrs arbitrary: minCost best)
  case Nil
  then show ?case by simp
next
  case (Cons j nbrs)
  have j: "j < length ns" and r: "\<forall>j\<in>set nbrs. j < length ns" using Cons.prems by simp_all
  let ?pc = "cost (ns ! j) + dist_pts (ns ! j) newPt"
  show ?case
  proof (cases "?pc < minCost \<and> \<not> checkCollision (ns ! j) newPt obs")
    case True
    then show ?thesis using Cons.IH[OF r, of ?pc j] j by (auto simp: Let_def)
  next
    case False
    then show ?thesis using Cons.IH[OF r, of minCost best] j by (auto simp: Let_def)
  qed
qed

section \<open>Every micro-step keeps the invariant\<close>

lemma inv_nodes_same:
  "plannerInv s \<Longrightarrow> nodes s' = nodes s \<Longrightarrow> scratchOk s' \<Longrightarrow> plannerInv s'"
  by (simp add: plannerInv_def)

lemma inv_reset:
  "structOk ns \<Longrightarrow> costOk ns \<Longrightarrow> plannerInv ((resetTemp (s\<lparr>nodes := ns\<rparr>))\<lparr>microState := SAMPLE\<rparr>)"
  by (simp add: plannerInv_def scratchOk_def resetTemp_def)

lemma inv_reset': "plannerInv s \<Longrightarrow> plannerInv ((resetTemp s)\<lparr>microState := SAMPLE\<rparr>)"
  by (simp add: plannerInv_def scratchOk_def resetTemp_def)

lemma nearestRef_Some:
  "nearestRef s = Some nr \<Longrightarrow> \<exists>i. tempNearestNode s = Some i \<and> i < length (nodes s) \<and> nr = nodes s ! i"
  by (auto simp: nearestRef_def split: option.splits if_splits)

lemma addNode_attach:
  "finalParent s < length (nodes s) \<Longrightarrow>
     addNode s newPt =
       (if algorithm s = RRTStar then
          Inr (True, s\<lparr>nodes := attach (nodes s) (finalParent s) newPt, microState := REWIRE\<rparr>)
        else
          Inr (False, (resetTemp (s\<lparr>nodes := attach (nodes s) (finalParent s) newPt\<rparr>))\<lparr>microState := SAMPLE\<rparr>))"
  by (simp add: addNode_def finalParent_def attach_def Let_def)

lemma finalParent_lt: "plannerInv s \<Longrightarrow> finalParent s < length (nodes s)"
proof -
  assume i: "plannerInv s"
  then have so: "structOk (nodes s)" and sc: "scratchOk s" by (simp_all add: plannerInv_def)
  have z: "0 < length (nodes s)" using so by (simp add: structOk_def)
  have nr: "(case nearestRef s of None \<Rightarrow> 0 | Some nr \<Rightarrow> nid nr) < length (nodes s)"
  proof (cases "nearestRef s")
    case None then show ?thesis using z by simp
  next
    case (Some nr)
    then obtain k where "k < length (nodes s)" "nr = nodes s ! k" using nearestRef_Some by blast
    then show ?thesis using so Some by (simp add: structOk_def)
  qed
  show ?thesis
    using nr sc by (auto simp: finalParent_def Let_def scratchOk_def split: option.splits)
qed

lemma inv_attach:
  assumes "plannerInv s" "fp < length (nodes s)"
  shows "plannerInv (s\<lparr>nodes := attach (nodes s) fp newPt, microState := REWIRE\<rparr>)"
proof -
  have "structOk (attach (nodes s) fp newPt)" "costOk (attach (nodes s) fp newPt)"
    using assms attach_structOk attach_costOk by (simp_all add: plannerInv_def)
  moreover have "scratchOk (s\<lparr>nodes := attach (nodes s) fp newPt, microState := REWIRE\<rparr>)"
    using assms(1) by (auto simp: plannerInv_def scratchOk_def attach_length)
  ultimately show ?thesis by (simp add: plannerInv_def)
qed

lemma addNode_ok:
  assumes "plannerInv s"
  shows "\<exists>b s'. addNode s newPt = Inr (b, s') \<and> plannerInv s' \<and> length (nodes s') = Suc (length (nodes s))"
proof -
  have fp: "finalParent s < length (nodes s)" using assms by (rule finalParent_lt)
  have so: "structOk (attach (nodes s) (finalParent s) newPt)"
    and co: "costOk (attach (nodes s) (finalParent s) newPt)"
    using assms fp attach_structOk attach_costOk by (simp_all add: plannerInv_def)
  show ?thesis
  proof (cases "algorithm s = RRTStar")
    case True
    then have "addNode s newPt = Inr (True, s\<lparr>nodes := attach (nodes s) (finalParent s) newPt, microState := REWIRE\<rparr>)"
      using addNode_attach[OF fp] by simp
    moreover have "length (nodes (s\<lparr>nodes := attach (nodes s) (finalParent s) newPt, microState := REWIRE\<rparr>))
        = Suc (length (nodes s))" by (simp add: attach_length)
    ultimately show ?thesis using inv_attach[OF assms fp] by blast
  next
    case False
    then have "addNode s newPt = Inr (False, (resetTemp (s\<lparr>nodes := attach (nodes s) (finalParent s) newPt\<rparr>))\<lparr>microState := SAMPLE\<rparr>)"
      using addNode_attach[OF fp] by simp
    moreover have "length (nodes ((resetTemp (s\<lparr>nodes := attach (nodes s) (finalParent s) newPt\<rparr>))\<lparr>microState := SAMPLE\<rparr>))
        = Suc (length (nodes s))" by (simp add: attach_length resetTemp_def)
    ultimately show ?thesis using inv_reset[OF so co] by blast
  qed
qed

lemma rewire_ok:
  assumes "plannerInv s" "length (nodes s) \<le> fuel"
  shows "\<exists>ns'. rewire fuel s = Inr (False, (resetTemp (s\<lparr>nodes := ns'\<rparr>))\<lparr>microState := SAMPLE\<rparr>)
      \<and> (ns' = nodes s \<or> algorithm s = RRTStar \<and> tempNewPoint s \<noteq> None
            \<and> rewireLoop fuel (obstacles s) (length (nodes s) - 1) (tempNeighbors s) (nodes s) = Inr ns')
      \<and> rewirePost (nodes s) (length (nodes s) - 1) ns'"
proof -
  have so: "structOk (nodes s)" and co: "costOk (nodes s)" and sc: "scratchOk s"
    using assms(1) by (simp_all add: plannerInv_def)
  have ne: "nodes s \<noteq> []" using so by (simp add: structOk_def)
  show ?thesis
  proof (cases "algorithm s = RRTStar \<and> tempNewPoint s \<noteq> None")
    case False
    then have "rewire fuel s = Inr (False, (resetTemp (s\<lparr>nodes := nodes s\<rparr>))\<lparr>microState := SAMPLE\<rparr>)"
      by (auto simp: rewire_def)
    then show ?thesis using rewirePost_refl[OF so co] by blast
  next
    case True
    have "length (nodes s) - 1 < length (nodes s)" using ne by simp
    from rewireLoop_ok[OF so co this _ assms(2), of "tempNeighbors s" "obstacles s"] sc
    obtain ns' where "rewireLoop fuel (obstacles s) (length (nodes s) - 1) (tempNeighbors s) (nodes s) = Inr ns'"
      "rewirePost (nodes s) (length (nodes s) - 1) ns'"
      by (auto simp: scratchOk_def)
    then show ?thesis using True ne by (auto simp: rewire_def)
  qed
qed

lemma inv_stepMicro:
  assumes i: "plannerInv s" and fu: "length (nodes s) \<le> fuel"
  shows "\<exists>b s'. stepMicro fuel rnd s = Inr (b, s') \<and> plannerInv s'"
proof (cases "length (nodes s) \<ge> maxIterations (params s)")
  case True
  then have "stepMicro fuel rnd s = Inr (False, s)" by (simp add: stepMicro_def)
  then show ?thesis using i by blast
next
  case ns: False
  have sc: "scratchOk s" using i by (simp add: plannerInv_def)
  show ?thesis
  proof (cases "microState s")
    case SAMPLE
    then show ?thesis using ns i by (auto simp: stepMicro_def plannerInv_def scratchOk_def)
  next
    case NEAREST
    show ?thesis
    proof (cases "tempSample s")
      case None
      then show ?thesis using ns i NEAREST by (auto simp: stepMicro_def plannerInv_def scratchOk_def)
    next
      case (Some smp)
      have "\<And>k. nearestLoop (nodes s) smp 0 None None = Some k \<Longrightarrow> k < length (nodes s)"
        using nearestLoop_lt[of None "nodes s" smp 0 None] by simp
      then show ?thesis using ns i NEAREST Some by (auto simp: stepMicro_def plannerInv_def scratchOk_def)
    qed
  next
    case STEER
    then show ?thesis using ns i
      by (auto simp: stepMicro_def plannerInv_def scratchOk_def split: option.splits)
  next
    case COLLISION_CHECK
    then show ?thesis using ns i inv_reset'[OF i]
      by (auto simp: stepMicro_def plannerInv_def scratchOk_def split: option.splits)
  next
    case NEIGHBORS
    then show ?thesis using ns i findNeighbors_lt
      by (auto simp: stepMicro_def plannerInv_def scratchOk_def split: option.splits)
  next
    case CHOOSE_PARENT
    show ?thesis
    proof (cases "tempNewPoint s")
      case None
      then show ?thesis using ns i CHOOSE_PARENT by (auto simp: stepMicro_def plannerInv_def scratchOk_def)
    next
      case np: (Some newPt)
      show ?thesis
      proof (cases "nearestRef s")
        case None
        then show ?thesis using ns i CHOOSE_PARENT np by (auto simp: stepMicro_def plannerInv_def scratchOk_def)
      next
        case (Some nr)
        then obtain k where k: "k < length (nodes s)" "nr = nodes s ! k" using nearestRef_Some by blast
        then have nk: "nid nr < length (nodes s)" using i by (simp add: plannerInv_def structOk_def)
        have "\<forall>j\<in>set (tempNeighbors s). j < length (nodes s)" using sc by (simp add: scratchOk_def)
        from chooseParentLoop_ok[OF this, of newPt "obstacles s" "cost nr + dist_pts nr newPt" "nid nr"]
        obtain mc b where cp: "chooseParentLoop (nodes s) newPt (obstacles s) (tempNeighbors s)
            (cost nr + dist_pts nr newPt) (nid nr) = Inr (mc, b)" and b: "b = nid nr \<or> b \<in> set (tempNeighbors s)"
          by blast
        have "b < length (nodes s)" using b nk sc by (auto simp: scratchOk_def)
        then show ?thesis using ns i CHOOSE_PARENT np Some cp
          by (auto simp: stepMicro_def plannerInv_def scratchOk_def)
      qed
    qed
  next
    case ADD_NODE
    show ?thesis
    proof (cases "tempNewPoint s")
      case None
      then show ?thesis using ns i ADD_NODE by (auto simp: stepMicro_def plannerInv_def scratchOk_def)
    next
      case (Some newPt)
      then show ?thesis using ns ADD_NODE addNode_ok[OF i, of newPt] by (auto simp: stepMicro_def)
    qed
  next
    case REWIRE
    obtain ns' where "rewire fuel s = Inr (False, (resetTemp (s\<lparr>nodes := ns'\<rparr>))\<lparr>microState := SAMPLE\<rparr>)"
      "rewirePost (nodes s) (length (nodes s) - 1) ns'"
      using rewire_ok[OF i fu] by blast
    then show ?thesis using ns REWIRE inv_reset[of ns' s] by (auto simp: stepMicro_def rewirePost_def)
  next
    case IDLE
    then show ?thesis using ns i by (auto simp: stepMicro_def plannerInv_def scratchOk_def)
  qed
qed

section \<open>More fuel does not change a result\<close>

lemma updateCost_mono_aux:
  "\<forall>f' r. updateCost f n ns = Inr r \<longrightarrow> f \<le> f' \<longrightarrow> updateCost f' n ns = Inr r"
  "\<forall>f' r. updateCostLoop f n cs ns = Inr r \<longrightarrow> f \<le> f' \<longrightarrow> updateCostLoop f' n cs ns = Inr r"
proof (induction f n ns and f n cs ns rule: updateCost_updateCostLoop.induct)
  case (1 nodeId ns)
  show ?case by simp
next
  case (2 fuel nodeId ns)
  show ?case
  proof (intro allI impI)
    fix f' r assume a: "updateCost (Suc fuel) nodeId ns = Inr r" and le: "Suc fuel \<le> f'"
    then obtain g where g: "f' = Suc g" "fuel \<le> g" by (cases f') auto
    have l: "nodeId < length ns" using a by (simp split: if_splits)
    then have "updateCostLoop fuel nodeId (children (ns ! nodeId)) ns = Inr r" using a by simp
    then have "updateCostLoop g nodeId (children (ns ! nodeId)) ns = Inr r"
      using "2.IH"[OF l] g(2) by blast
    then show "updateCost f' nodeId ns = Inr r" using l g(1) by simp
  qed
next
  case (3 fuel nodeId ns)
  show ?case by simp
next
  case (4 fuel nodeId childId rest ns)
  show ?case
  proof (intro allI impI)
    fix f' r assume a: "updateCostLoop fuel nodeId (childId # rest) ns = Inr r" and le: "fuel \<le> f'"
    have l: "childId < length ns" using a by (simp split: if_splits)
    define ns1 where "ns1 = ns[childId := (ns ! childId)\<lparr>cost := cost (ns ! nodeId) + dist_pts (ns ! nodeId) (ns ! childId)\<rparr>]"
    from a l obtain ns2 where u: "updateCost fuel childId ns1 = Inr ns2"
      and lp: "updateCostLoop fuel nodeId rest ns2 = Inr r"
      by (auto simp: Let_def ns1_def split: sum.splits)
    have u': "updateCost f' childId ns1 = Inr ns2"
      using "4.IH"(1)[OF l refl refl refl, folded ns1_def] u le by blast
    have lp': "updateCostLoop f' nodeId rest ns2 = Inr r"
      using "4.IH"(2)[OF l refl refl refl u[unfolded ns1_def]] lp le by blast
    show "updateCostLoop f' nodeId (childId # rest) ns = Inr r"
      using l u' lp' by (simp add: Let_def ns1_def)
  qed
qed

section \<open>Reachable states\<close>

lemma updateCost_mono: "updateCost f n ns = Inr r \<Longrightarrow> f \<le> f' \<Longrightarrow> updateCost f' n ns = Inr r"
  using updateCost_mono_aux(1) by blast

lemma reparent_mono:
  "reparent f new nb c ns = Inr r \<Longrightarrow> f \<le> f' \<Longrightarrow> reparent f' new nb c ns = Inr r"
  unfolding reparent_def Let_def
  by (auto split: option.splits if_splits sum.splits intro: updateCost_mono)

lemma rewireLoop_mono:
  "rewireLoop f obs new nbrs ns = Inr r \<Longrightarrow> f \<le> f' \<Longrightarrow> rewireLoop f' obs new nbrs ns = Inr r"
proof (induction nbrs arbitrary: ns)
  case Nil then show ?case by simp
next
  case (Cons nb nbrs)
  show ?case
  proof (cases "Some nb \<noteq> parentId (ns ! new) \<and> nb < length ns
       \<and> cost (ns ! new) + dist_pts (ns ! new) (ns ! nb) < cost (ns ! nb)
       \<and> \<not> checkCollision (ns ! new) (ns ! nb) obs")
    case True
    then obtain ns1 where r1: "reparent f new nb (cost (ns ! new) + dist_pts (ns ! new) (ns ! nb)) ns = Inr ns1"
      and r2: "rewireLoop f obs new nbrs ns1 = Inr r"
      using Cons.prems(1) by (auto simp: Let_def split: sum.splits)
    have "reparent f' new nb (cost (ns ! new) + dist_pts (ns ! new) (ns ! nb)) ns = Inr ns1"
      using r1 Cons.prems(2) by (rule reparent_mono)
    moreover have "rewireLoop f' obs new nbrs ns1 = Inr r" using Cons.IH[OF r2 Cons.prems(2)] .
    ultimately show ?thesis using True by (simp add: Let_def)
  next
    case False
    then have "rewireLoop f obs new nbrs ns = Inr r \<and> (Some nb = parentId (ns ! new) \<or> nb < length ns)"
      using Cons.prems(1) by (auto simp: Let_def split: if_splits)
    then show ?thesis using False Cons.IH[OF _ Cons.prems(2)] by (auto simp: Let_def)
  qed
qed

lemma stepMicro_mono:
  assumes "stepMicro f rnd s = Inr r" "f \<le> f'"
  shows "stepMicro f' rnd s = Inr r"
proof (cases "microState s = REWIRE \<and> \<not> length (nodes s) \<ge> maxIterations (params s)")
  case False
  then have "stepMicro f' rnd s = stepMicro f rnd s"
    by (cases "microState s") (auto simp: stepMicro_def)
  then show ?thesis using assms(1) by simp
next
  case True
  then have a: "rewire f s = Inr r" using assms(1) by (simp add: stepMicro_def)
  have "rewire f' s = Inr r"
  proof (cases "algorithm s = RRTStar \<and> tempNewPoint s \<noteq> None \<and> nodes s \<noteq> []")
    case False
    then have "rewire f' s = rewire f s" by (auto simp: rewire_def)
    then show ?thesis using a by simp
  next
    case t: True
    then obtain ns' where "rewireLoop f (obstacles s) (length (nodes s) - 1) (tempNeighbors s) (nodes s) = Inr ns'"
      using a by (auto simp: rewire_def split: sum.splits)
    then show ?thesis using rewireLoop_mono[OF _ assms(2)] a t by (auto simp: rewire_def)
  qed
  then show ?thesis using True by (simp add: stepMicro_def)
qed

lemma inv_stepMicro_any:
  assumes "plannerInv s" "stepMicro fuel rnd s = Inr (b, s')"
  shows "plannerInv s'"
proof -
  let ?f = "max fuel (length (nodes s))"
  have "stepMicro ?f rnd s = Inr (b, s')" using assms(2) by (rule stepMicro_mono) simp
  moreover obtain b2 s2 where "stepMicro ?f rnd s = Inr (b2, s2)" "plannerInv s2"
    using inv_stepMicro[OF assms(1), of ?f rnd] by auto
  ultimately show ?thesis by simp
qed

lemma reachable_inv: "reachable s \<Longrightarrow> plannerInv s"
  by (induction rule: reachable.induct) (auto intro: inv_construct inv_stepMicro_any)

lemma dist_pts_sym: "dist_pts p q = dist_pts q p"
  by (simp add: dist_pts_def power2_commute)

lemma inv_costInvariant: "plannerInv s \<Longrightarrow> costInvariant (nodes s)"
proof -
  assume "plannerInv s"
  then have so: "structOk (nodes s)" and co: "costOk (nodes s)" by (simp_all add: plannerInv_def)
  have z: "0 < length (nodes s)" using so by (simp add: structOk_def)
  have "case parentId (nodes s ! i) of None \<Rightarrow> True
        | Some p \<Rightarrow> p < length (nodes s) \<and> cost (nodes s ! i) = cost (nodes s ! p) + dist_pts (nodes s ! i) (nodes s ! p)"
    if i: "i < length (nodes s)" for i
  proof (cases "parentId (nodes s ! i)")
    case None then show ?thesis by simp
  next
    case (Some p)
    then show ?thesis
      using structOk_parent_lt[OF so i Some] costOk_edge[OF co i Some]
      by (simp add: dist_pts_sym[of "nodes s ! i"])
  qed
  then show ?thesis using so co z by (simp add: costInvariant_def structOk_def costOk_def)
qed

lemma distinct_count_one: "distinct xs \<Longrightarrow> c \<in> set xs \<Longrightarrow> count_list xs c = 1"
  by (induction xs) auto

lemma inv_treeInvariant: "plannerInv s \<Longrightarrow> treeInvariant (nodes s)"
proof -
  assume "plannerInv s"
  then have so: "structOk (nodes s)" by (simp add: plannerInv_def)
  let ?ns = "nodes s"
  have id: "\<And>i. i < length ?ns \<Longrightarrow> nid (?ns ! i) = i" using so by (simp add: structOk_def)
  have ch: "\<And>i. i < length ?ns \<Longrightarrow> set (children (?ns ! i)) = {c. c < length ?ns \<and> parentId (?ns ! c) = Some i}"
    using so by (simp add: structOk_def)
  have di: "\<And>i. i < length ?ns \<Longrightarrow> distinct (children (?ns ! i))" using so by (simp add: structOk_def)
  have "childrenConsistent ?ns"
    unfolding childrenConsistent_def
  proof (intro allI impI conjI ballI)
    fix i c assume i: "i < length ?ns" and c: "c \<in> set (children (?ns ! i))"
    then show "c < length ?ns" "nid (?ns ! c) = c" "parentId (?ns ! c) = Some (nid (?ns ! i))"
      using ch[OF i] id by auto
  next
    fix i c assume i: "i < length ?ns" and c: "c < length ?ns" and p: "parentId (?ns ! c) = Some (nid (?ns ! i))"
    then have "c \<in> set (children (?ns ! i))" using ch[OF i] id[OF i] by simp
    then show "count_list (children (?ns ! i)) c = 1"
      using distinct_count_one[OF di[OF i]] by simp
  qed
  then show ?thesis using reachesRoot_all[OF so] id by (simp add: treeInvariant_def)
qed

section \<open>The example run\<close>

lemma sqrt_le_iff_sq: "0 \<le> b \<Longrightarrow> (sqrt a \<le> b) = (a \<le> b\<^sup>2)"
  by (metis real_sqrt_le_iff real_sqrt_abs abs_of_nonneg)

lemma sqrt_less_iff_sq: "0 \<le> b \<Longrightarrow> (sqrt a < b) = (a < b\<^sup>2)"
  by (metis real_sqrt_less_iff real_sqrt_abs abs_of_nonneg)

lemma le_sqrt_iff_sq: "0 \<le> b \<Longrightarrow> (b \<le> sqrt a) = (b\<^sup>2 \<le> a)"
  by (metis real_sqrt_le_iff real_sqrt_abs abs_of_nonneg)

lemma less_sqrt_iff_sq: "0 \<le> b \<Longrightarrow> (b < sqrt a) = (b\<^sup>2 < a)"
  by (metis real_sqrt_less_iff real_sqrt_abs abs_of_nonneg)

lemma sqrt_squares:
  "sqrt 4 = 2" "sqrt 9 = 3" "sqrt 16 = 4" "sqrt 25 = 5" "sqrt 36 = 6" "sqrt 64 = 8" "sqrt 100 = 10"
  using real_sqrt_abs[of 2] real_sqrt_abs[of 3] real_sqrt_abs[of 4] real_sqrt_abs[of 5]
    real_sqrt_abs[of 6] real_sqrt_abs[of 8] real_sqrt_abs[of 10]
  by simp_all

lemma maxNumber_large: "2 ^ 1000 < maxNumber"
proof -
  have "(2::real) ^ 1024 = 2 ^ 53 * 2 ^ 971" "(2::real) ^ 1000 = 2 ^ 29 * 2 ^ 971"
    by (simp_all only: power_add[symmetric]) simp_all
  then have "maxNumber - 2 ^ 1000 = (2 ^ 53 - 1 - 2 ^ 29) * 2 ^ 971"
    by (simp add: maxNumber_def algebra_simps)
  moreover have "(0::real) < (2 ^ 53 - 1 - 2 ^ 29) * 2 ^ 971" by simp
  ultimately show ?thesis by simp
qed

lemma distOrInf_small:
  "(px p1 - px p2)\<^sup>2 + (py p1 - py p2)\<^sup>2 \<le> 1000000 \<Longrightarrow> distOrInf p1 p2 = Some (dist_pts p1 p2)"
proof -
  assume a: "(px p1 - px p2)\<^sup>2 + (py p1 - py p2)\<^sup>2 \<le> 1000000"
  have "(1000000::real) \<le> 2 ^ 20" by simp
  also have "(2::real) ^ 20 \<le> 2 ^ 1000" by (rule power_increasing) simp_all
  finally have "(1000000::real) < maxNumber" using maxNumber_large by simp
  then show ?thesis using a by (simp add: distOrInf_def)
qed

lemmas ev = distOrInf_small stepMicro_def construct_def exParams_def drawsTo_def samplePoint_def nearestLoop.simps
  lessInf_def dist_pts_def sqrt_squares sqrt_le_iff_sq sqrt_less_iff_sq le_sqrt_iff_sq less_sqrt_iff_sq
  nearestRef_def steer_def checkCollision_def findNeighbors_def addNode_def rewire_def resetTemp_def
  reparent_def Let_def mkNode_def upt_rec[of 0] nth_Cons'

lemma ex_iter1:
  "runMicro 5 (replicate 8 (drawsTo 4 3)) exInit
     = Inr ([True, True, True, True, True, True, True, False], exInit\<lparr>nodes := exTree1\<rparr>)"
  by (simp add: exInit_def exTree1_def ev numeral_eq_Suc)

lemma ex_iter2:
  "runMicro 5 (replicate 8 (drawsTo 4 0)) (exInit\<lparr>nodes := exTree1\<rparr>)
     = Inr ([True, True, True, True, True, True, True, False], exInit\<lparr>nodes := exTree2\<rparr>)"
  by (simp add: exInit_def exTree1_def exTree2_def ev numeral_eq_Suc)

lemma ex_iter3:
  "runMicro 5 (replicate 8 (drawsTo 5 0)) (exInit\<lparr>nodes := exTree2\<rparr>)
     = Inr ([True, True, True, True, True, True, True, False], exInit\<lparr>nodes := exTree3\<rparr>)"
  by (simp add: exInit_def exTree2_def exTree3_def ev numeral_eq_Suc)

lemma ex_iter4a:
  "runMicro 5 (replicate 7 (drawsTo 2 0)) (exInit\<lparr>nodes := exTree3\<rparr>)
     = Inr ([True, True, True, True, True, True, True], exRewire)"
  by (simp add: exInit_def exTree3_def exTree4pre_def exRewire_def ev numeral_eq_Suc)

lemma ex_iter4b:
  "stepMicro 5 (drawsTo 2 0) exRewire = Inr (False, exInit\<lparr>nodes := exTree4\<rparr>)"
  by (simp add: exInit_def exTree4pre_def exTree4_def exRewire_def ev numeral_eq_Suc)

section \<open>The invariants of the tree store and the cost of rewiring\<close>

lemma reachable_runMicro:
  "reachable s \<Longrightarrow> runMicro fuel ds s = Inr (bs, s') \<Longrightarrow> reachable s'"
proof (induction ds arbitrary: s bs)
  case Nil
  then show ?case by simp
next
  case (Cons d ds)
  from Cons.prems(2) obtain b s1 bs1 where 1: "stepMicro fuel d s = Inr (b, s1)"
    and 2: "runMicro fuel ds s1 = Inr (bs1, s')"
    by (auto split: sum.splits prod.splits)
  have "reachable s1" using Cons.prems(1) 1 by (rule reachable.micro)
  then show ?case using 2 by (rule Cons.IH)
qed

lemma exInit_reachable: "reachable exInit"
  unfolding exInit_def by (rule reachable.init)

lemma exRewire_reachable: "reachable exRewire"
  using exInit_reachable ex_iter1 ex_iter2 ex_iter3 ex_iter4a reachable_runMicro by blast

lemma exFinal_reachable: "reachable exFinal"
  unfolding exFinal_def using exRewire_reachable ex_iter4b by (rule reachable.micro)

text \<open>
  C1.  After construction and after every micro-step, the root (id 0) has cost 0 and every
  node with a parent has the cost of its parent plus the Euclidean distance between the
  two; this covers the states after every ADD_NODE and after every REWIRE cascade.
\<close>

theorem cost_invariant_preserved: "reachable s \<Longrightarrow> costInvariant (nodes s)"
  by (rule inv_costInvariant) (rule reachable_inv)

theorem cost_invariant_preserved_witness:
  "reachable exFinal \<and> costInvariant (nodes exFinal) \<and> cost (nodes exFinal ! 3) = 5"
  using cost_invariant_preserved[OF exFinal_reachable] exFinal_reachable
  by (simp add: exFinal_def exTree4_def mkNode_def)

text \<open>
  C2.  After construction and after every micro-step the store is a rooted tree: every id
  listed in \<open>children\<close> of a node is a node whose \<open>parentId\<close> is that node, every node
  with that \<open>parentId\<close> is listed exactly once, and from every node the parent links reach
  the root (id 0, no parent) within as many steps as there are nodes.
\<close>

theorem tree_invariant_preserved: "reachable s \<Longrightarrow> treeInvariant (nodes s)"
  by (rule inv_treeInvariant) (rule reachable_inv)

theorem tree_invariant_preserved_witness:
  "reachable exFinal \<and> treeInvariant (nodes exFinal) \<and> children (nodes exFinal ! 4) = [2]"
  using tree_invariant_preserved[OF exFinal_reachable] exFinal_reachable
  by (simp add: exFinal_def exTree4_def mkNode_def)

text \<open>
  C3, as amended.  In a REWIRE micro-step no node's cost grows, and every node whose
  parent link changes is re-parented to the new node (the last one of the store) and
  gets a strictly smaller cost.  A neighbour that keeps its parent can still get a
  strictly smaller cost, when one of its ancestors is re-parented.
\<close>

theorem rewire_never_worsens:
  assumes "reachable s" "microState s = REWIRE" "length (nodes s) \<le> fuel"
  shows "\<exists>s'. stepMicro fuel rnd s = Inr (False, s')
      \<and> length (nodes s') = length (nodes s)
      \<and> (\<forall>n\<in>set (tempNeighbors s). n < length (nodes s))
      \<and> (\<forall>n<length (nodes s).
            cost (nodes s' ! n) \<le> cost (nodes s ! n)
            \<and> (parentId (nodes s' ! n) \<noteq> parentId (nodes s ! n) \<longrightarrow>
                 parentId (nodes s' ! n) = Some (length (nodes s) - 1)
                 \<and> cost (nodes s' ! n) < cost (nodes s ! n)))"
proof -
  have i: "plannerInv s" using assms(1) by (rule reachable_inv)
  then have nb: "\<forall>n\<in>set (tempNeighbors s). n < length (nodes s)" by (simp add: plannerInv_def scratchOk_def)
  show ?thesis
  proof (cases "length (nodes s) \<ge> maxIterations (params s)")
    case True
    then have "stepMicro fuel rnd s = Inr (False, s)" by (simp add: stepMicro_def)
    then show ?thesis using nb by auto
  next
    case False
    obtain ns' where r: "rewire fuel s = Inr (False, (resetTemp (s\<lparr>nodes := ns'\<rparr>))\<lparr>microState := SAMPLE\<rparr>)"
      and p: "rewirePost (nodes s) (length (nodes s) - 1) ns'"
      using rewire_ok[OF i assms(3)] by blast
    have "stepMicro fuel rnd s = Inr (False, (resetTemp (s\<lparr>nodes := ns'\<rparr>))\<lparr>microState := SAMPLE\<rparr>)"
      using False assms(2) r by (simp add: stepMicro_def)
    moreover have "nodes ((resetTemp (s\<lparr>nodes := ns'\<rparr>))\<lparr>microState := SAMPLE\<rparr>) = ns'"
      by (simp add: resetTemp_def)
    ultimately show ?thesis using p nb unfolding rewirePost_def by auto
  qed
qed

theorem rewire_never_worsens_witness:
  "reachable exRewire \<and> microState exRewire = REWIRE \<and> length (nodes exRewire) \<le> 5
   \<and> stepMicro 5 (drawsTo 2 0) exRewire = Inr (False, exFinal)
   \<and> parentId (nodes exFinal ! 2) = Some 4 \<and> cost (nodes exFinal ! 2) < cost (nodes exRewire ! 2)"
  using rewire_never_worsens[OF exRewire_reachable, of 5 "drawsTo 2 0"] exRewire_reachable ex_iter4b
  by (simp add: exFinal_def exRewire_def exTree4_def exTree4pre_def mkNode_def)

theorem rewire_strict_iff_reparented_counterexample:
  "reachable exRewire \<and> microState exRewire = REWIRE
   \<and> stepMicro 5 (drawsTo 2 0) exRewire = Inr (False, exFinal)
   \<and> 3 \<in> set (tempNeighbors exRewire)
   \<and> cost (nodes exFinal ! 3) < cost (nodes exRewire ! 3)
   \<and> parentId (nodes exFinal ! 3) = parentId (nodes exRewire ! 3)
   \<and> parentId (nodes exFinal ! 3) = Some 2"
  using exRewire_reachable ex_iter4b
  by (simp add: exFinal_def exRewire_def exTree4_def exTree4pre_def mkNode_def)

section \<open>CHOOSE_PARENT\<close>

lemma firstArgMin_le: "firstArgMin key xs b \<Longrightarrow> j \<in> set xs \<Longrightarrow> key b \<le> key j"
  by (induction xs) (auto simp: list_all_iff split: if_splits)

lemma firstArgMin_mem: "firstArgMin key xs b \<Longrightarrow> b \<in> set xs"
  by (induction xs) (auto split: if_splits)

lemma firstArgMin_keep:
  "firstArgMin key xs b \<Longrightarrow> key b \<le> key x \<Longrightarrow> firstArgMin key (xs @ [x]) b"
  by (induction xs) (auto split: if_splits)

lemma firstArgMin_replace:
  "(\<forall>j\<in>set xs. key x < key j) \<Longrightarrow> firstArgMin key (xs @ [x]) x"
  by (induction xs) auto

lemma chooseParentLoop_step:
  "j < length ns \<Longrightarrow>
     chooseParentLoop ns newPt obs (j # rest) minCost best =
       (if cost (ns ! j) + dist_pts (ns ! j) newPt < minCost \<and> \<not> checkCollision (ns ! j) newPt obs
        then chooseParentLoop ns newPt obs rest (cost (ns ! j) + dist_pts (ns ! j) newPt) j
        else chooseParentLoop ns newPt obs rest minCost best)"
  by (simp add: Let_def)

lemma chooseParentLoop_firstArgMin:
  assumes "\<forall>j\<in>set nbrs. j < length ns"
    and "firstArgMin (\<lambda>j. cost (ns ! j) + dist_pts (ns ! j) newPt) done best"
    and "minCost = cost (ns ! best) + dist_pts (ns ! best) newPt"
  shows "\<exists>b. chooseParentLoop ns newPt obs nbrs minCost best
        = Inr (cost (ns ! b) + dist_pts (ns ! b) newPt, b)
      \<and> firstArgMin (\<lambda>j. cost (ns ! j) + dist_pts (ns ! j) newPt)
           (done @ filter (\<lambda>j. \<not> checkCollision (ns ! j) newPt obs) nbrs) b"
  using assms
proof (induction nbrs arbitrary: "done" minCost best)
  case Nil
  then show ?case by simp
next
  case (Cons j nbrs)
  let ?key = "\<lambda>j. cost (ns ! j) + dist_pts (ns ! j) newPt"
  have j: "j < length ns" and r: "\<forall>j\<in>set nbrs. j < length ns" using Cons.prems(1) by simp_all
  show ?case
  proof (cases "checkCollision (ns ! j) newPt obs")
    case True
    then show ?thesis
      using Cons.IH[OF r Cons.prems(2,3)] by (simp add: chooseParentLoop_step[OF j] del: chooseParentLoop.simps)
  next
    case free: False
    show ?thesis
    proof (cases "?key j < minCost")
      case True
      have "\<forall>k\<in>set done. ?key j < ?key k"
        using firstArgMin_le[OF Cons.prems(2)] True Cons.prems(3) by fastforce
      then have "firstArgMin ?key (done @ [j]) j" by (rule firstArgMin_replace)
      from Cons.IH[OF r this refl] show ?thesis
        using True free by (simp add: chooseParentLoop_step[OF j] del: chooseParentLoop.simps)
    next
      case False
      then have "firstArgMin ?key (done @ [j]) best"
        using firstArgMin_keep[OF Cons.prems(2), of j] Cons.prems(3) by simp
      from Cons.IH[OF r this Cons.prems(3)] show ?thesis
        using False free by (simp add: chooseParentLoop_step[OF j] del: chooseParentLoop.simps)
    qed
  qed
qed

text \<open>
  C4.  CHOOSE_PARENT starts from the nearest node with
  \<open>nearest.cost + dist(nearest, candidate)\<close> and scans the neighbours in order, replacing
  the choice exactly when the neighbour's \<open>cost + dist\<close> is strictly smaller and its
  segment to the candidate is collision-free (\<open>chooseParentLoop_step\<close>).  The parent
  stored in \<open>tempBestParent\<close> is therefore the first element, in the order nearest node
  then collision-free neighbours, that attains the minimum of \<open>cost + dist\<close>.
\<close>

theorem choose_parent_minimal:
  assumes "microState s = CHOOSE_PARENT"
    and "length (nodes s) < maxIterations (params s)"
    and "tempNewPoint s = Some newPt"
    and "tempNearestNode s = Some i" and "i < length (nodes s)" and "nid (nodes s ! i) = i"
    and "\<forall>j\<in>set (tempNeighbors s). j < length (nodes s)"
  shows "\<exists>b. stepMicro fuel rnd s = Inr (True, s\<lparr>tempBestParent := Some b, microState := ADD_NODE\<rparr>)
      \<and> firstArgMin (\<lambda>j. cost (nodes s ! j) + dist_pts (nodes s ! j) newPt)
           (i # filter (\<lambda>j. \<not> checkCollision (nodes s ! j) newPt (obstacles s)) (tempNeighbors s)) b"
proof -
  let ?key = "\<lambda>j. cost (nodes s ! j) + dist_pts (nodes s ! j) newPt"
  have nr: "nearestRef s = Some (nodes s ! i)" using assms(4,5) by (simp add: nearestRef_def)
  have "firstArgMin ?key [i] i" by simp
  from chooseParentLoop_firstArgMin[OF assms(7) this refl, of "obstacles s"]
  obtain b where lp: "chooseParentLoop (nodes s) newPt (obstacles s) (tempNeighbors s) (?key i) i
        = Inr (?key b, b)"
    and fm: "firstArgMin ?key
        ([i] @ filter (\<lambda>j. \<not> checkCollision (nodes s ! j) newPt (obstacles s)) (tempNeighbors s)) b"
    by blast
  have "stepMicro fuel rnd s = Inr (True, s\<lparr>tempBestParent := Some b, microState := ADD_NODE\<rparr>)"
    using assms(1,2,3,6) nr lp by (simp add: stepMicro_def)
  then show ?thesis using fm by auto
qed

theorem choose_parent_minimal_witness:
  "microState exChoose = CHOOSE_PARENT
   \<and> length (nodes exChoose) < maxIterations (params exChoose)
   \<and> tempNewPoint exChoose = Some \<lparr>px = 2, py = 0\<rparr>
   \<and> tempNearestNode exChoose = Some 0 \<and> 0 < length (nodes exChoose) \<and> nid (nodes exChoose ! 0) = 0
   \<and> list_all (\<lambda>j. j < length (nodes exChoose)) (tempNeighbors exChoose)
   \<and> stepMicro 5 (drawsTo 2 0) exChoose
       = Inr (True, exChoose\<lparr>tempBestParent := Some 0, microState := ADD_NODE\<rparr>)"
proof -
  have h: "microState exChoose = CHOOSE_PARENT"
    "length (nodes exChoose) < maxIterations (params exChoose)"
    "tempNewPoint exChoose = Some \<lparr>px = 2, py = 0\<rparr>"
    "tempNearestNode exChoose = Some 0" "0 < length (nodes exChoose)" "nid (nodes exChoose ! 0) = 0"
    "\<forall>j\<in>set (tempNeighbors exChoose). j < length (nodes exChoose)"
    by (simp_all add: exChoose_def exInit_def exTree3_def construct_def exParams_def mkNode_def)
  obtain b where st: "stepMicro 5 (drawsTo 2 0) exChoose
        = Inr (True, exChoose\<lparr>tempBestParent := Some b, microState := ADD_NODE\<rparr>)"
    and fm: "firstArgMin (\<lambda>j. cost (nodes exChoose ! j) + dist_pts (nodes exChoose ! j) \<lparr>px = 2, py = 0\<rparr>)
           (0 # filter (\<lambda>j. \<not> checkCollision (nodes exChoose ! j) \<lparr>px = 2, py = 0\<rparr> (obstacles exChoose))
                  (tempNeighbors exChoose)) b"
    using choose_parent_minimal[OF h, of 5 "drawsTo 2 0"] by blast
  have "b = 0"
    using fm by (simp add: exChoose_def exInit_def exTree3_def construct_def mkNode_def
        checkCollision_def dist_pts_def sqrt_squares split: if_splits)
  then show ?thesis using h st by (simp add: list_all_iff)
qed

section \<open>One iteration in eight micro-steps\<close>

lemma nearestLoop_found:
  "md = None \<or> idx \<noteq> None \<Longrightarrow>
     (nearestLoop ns smp i md idx \<noteq> None)
       = (idx \<noteq> None \<or> (\<exists>j. i \<le> j \<and> j < length ns \<and> distOrInf (ns ! j) smp \<noteq> None))"
proof (induction ns smp i md idx rule: nearestLoop.induct)
  case (1 ns smp i minDist nearestNodeIndex)
  show ?case
  proof (cases "i < length ns")
    case False
    then show ?thesis by (auto simp: nearestLoop.simps[of ns smp i])
  next
    case True
    show ?thesis
    proof (cases "lessInf (distOrInf (ns ! i) smp) minDist")
      case t: True
      then have d: "distOrInf (ns ! i) smp \<noteq> None" by (auto simp: lessInf_def split: option.splits)
      have "nearestLoop ns smp (Suc i) (distOrInf (ns ! i) smp) (Some i) \<noteq> None"
        using "1.IH"(1)[OF True refl t] by simp
      then have "nearestLoop ns smp i minDist nearestNodeIndex \<noteq> None"
        using True t by (simp add: nearestLoop.simps[of ns smp i])
      moreover have "\<exists>j. i \<le> j \<and> j < length ns \<and> distOrInf (ns ! j) smp \<noteq> None"
        using True d by blast
      ultimately show ?thesis by simp
    next
      case f: False
      have e: "nearestLoop ns smp i minDist nearestNodeIndex
          = nearestLoop ns smp (Suc i) minDist nearestNodeIndex"
        using True f by (simp add: nearestLoop.simps[of ns smp i])
      have c: "distOrInf (ns ! i) smp = None \<or> nearestNodeIndex \<noteq> None"
        using f "1.prems" by (auto simp: lessInf_def split: option.splits)
      have "(\<exists>j. i \<le> j \<and> j < length ns \<and> distOrInf (ns ! j) smp \<noteq> None)
          = (distOrInf (ns ! i) smp \<noteq> None \<or> (\<exists>j. Suc i \<le> j \<and> j < length ns \<and> distOrInf (ns ! j) smp \<noteq> None))"
        (is "?L = (?A \<or> ?R)")
      proof
        assume ?L
        then obtain j where j: "i \<le> j" "j < length ns" "distOrInf (ns ! j) smp \<noteq> None" by blast
        show "?A \<or> ?R"
        proof (cases "j = i")
          case True
          then show ?thesis using j by simp
        next
          case False
          then have "Suc i \<le> j" using j(1) by simp
          then show ?thesis using j by blast
        qed
      next
        assume "?A \<or> ?R"
        then show ?L
        proof
          assume ?A
          then show ?L using True by blast
        next
          assume ?R
          then obtain j where "Suc i \<le> j" "j < length ns" "distOrInf (ns ! j) smp \<noteq> None" by blast
          then have "i \<le> j \<and> j < length ns \<and> distOrInf (ns ! j) smp \<noteq> None" by simp
          then show ?L by blast
        qed
      qed
      then have q: "?L = (?A \<or> ?R)" .
      note ih = "1.IH"(2)[OF True refl f "1.prems"]
      from c show ?thesis unfolding e ih q by (elim disjE) simp_all
    qed
  qed
qed

lemma finiteDist_nth:
  "finiteDist ns smp = (\<exists>j. 0 \<le> j \<and> j < length ns \<and> distOrInf (ns ! j) smp \<noteq> None)"
  unfolding finiteDist_def by (metis in_set_conv_nth le0)

lemma nearestLoop_None:
  "\<not> finiteDist ns smp \<Longrightarrow> nearestLoop ns smp 0 None None = None"
  using nearestLoop_found[of None None ns smp 0] by (auto simp: finiteDist_nth)

lemma nearestLoop_Some:
  assumes "finiteDist ns smp"
  shows "\<exists>k<length ns. nearestLoop ns smp 0 None None = Some k"
proof -
  have "nearestLoop ns smp 0 None None \<noteq> None"
    using nearestLoop_found[of None None ns smp 0] assms by (simp add: finiteDist_nth)
  then obtain k where k: "nearestLoop ns smp 0 None None = Some k" by auto
  then have "k < length ns" using nearestLoop_lt[of None ns smp 0 None k] by simp
  then show ?thesis using k by simp
qed

lemma hugeSide_half_sq: "(hugeSide / 2)\<^sup>2 = 2 ^ 1198"
  by (simp add: hugeSide_def)

lemma maxNumber_less_huge: "maxNumber < (hugeSide / 2)\<^sup>2 + (hugeSide / 2)\<^sup>2"
proof -
  have "maxNumber \<le> 2 ^ 1024" by (simp add: maxNumber_def)
  also have "(2::real) ^ 1024 \<le> 2 ^ 1198" by (rule power_increasing) simp_all
  also have "(2::real) ^ 1198 < 2 ^ 1198 + 2 ^ 1198" by simp
  finally show ?thesis by (simp only: hugeSide_half_sq)
qed

lemma exHuge_no_finiteDist: "\<not> finiteDist (nodes exHuge) hugeSample"
  using maxNumber_less_huge
  by (simp add: finiteDist_def exHuge_def construct_def hugeSample_def distOrInf_def)

lemma exHuge_sample: "sampleOf drawsHalf exHuge = hugeSample"
  by (simp add: sampleOf_def drawsHalf_def exHuge_def construct_def exParams_def samplePoint_def hugeSample_def)

lemma exHuge_cycle:
  "stepMicro fuel drawsHalf exHuge = Inr (True, exHugeNearest)"
  "stepMicro fuel drawsHalf exHugeNearest = Inr (True, exHugeSteer)"
  "stepMicro fuel drawsHalf exHugeSteer = Inr (True, exHugeAgain)"
  "stepMicro fuel drawsHalf exHugeAgain = Inr (True, exHugeNearest)"
proof -
  have n: "nearestLoop (nodes exHuge) hugeSample 0 None None = None"
    using exHuge_no_finiteDist by (rule nearestLoop_None)
  have f: "nodes exHugeNearest = nodes exHuge" "tempSample exHugeNearest = Some hugeSample"
    "maxIterations (params exHugeNearest) = 10" "length (nodes exHuge) = 1"
    "microState exHugeNearest = NEAREST"
    by (simp_all add: exHugeNearest_def exHuge_def construct_def exParams_def)
  show "stepMicro fuel drawsHalf exHuge = Inr (True, exHugeNearest)"
    by (simp add: stepMicro_def exHugeNearest_def exHuge_def construct_def exParams_def
        drawsHalf_def samplePoint_def hugeSample_def)
  show "stepMicro fuel drawsHalf exHugeNearest = Inr (True, exHugeSteer)"
    using n f by (simp add: stepMicro_def) (simp add: exHugeSteer_def exHugeNearest_def exHuge_def construct_def)
  show "stepMicro fuel drawsHalf exHugeSteer = Inr (True, exHugeAgain)"
    by (simp add: stepMicro_def exHugeSteer_def exHugeAgain_def exHugeNearest_def exHuge_def
        construct_def exParams_def nearestRef_def)
  show "stepMicro fuel drawsHalf exHugeAgain = Inr (True, exHugeNearest)"
    by (simp add: stepMicro_def exHugeNearest_def exHugeAgain_def exHuge_def construct_def exParams_def
        drawsHalf_def samplePoint_def hugeSample_def)
qed

lemma checkCollision_empty: "checkCollision p q [] = False"
  by (simp add: checkCollision_def)

text \<open>
  C5, as amended.  For an RRT* planner with no obstacles, below \<open>maxIterations\<close> and at
  SAMPLE, whose drawn sample is at a finite distance from some stored node, eight
  consecutive micro-steps return false exactly once, on the eighth call, and add exactly
  one node.  The eighth call concludes REWIRE (scratch cleared, tag SAMPLE) when the node
  count stays below \<open>maxIterations\<close>; when the new node saturates the store, it is the
  saturation check that returns false and the tag stays REWIRE.
\<close>

theorem scenario_C_trace:
  assumes re: "reachable s" and alg: "algorithm s = RRTStar" and ob: "obstacles s = []"
    and ns: "length (nodes s) < maxIterations (params s)" and ms: "microState s = SAMPLE"
    and fd: "finiteDist (nodes s) (sampleOf d1 s)"
    and fu: "length (nodes s) < fuel"
  shows "\<exists>s'. runMicro fuel [d1, d2, d3, d4, d5, d6, d7, d8] s
        = Inr ([True, True, True, True, True, True, True, False], s')
      \<and> length (nodes s') = Suc (length (nodes s))
      \<and> (if Suc (length (nodes s)) < maxIterations (params s)
         then microState s' = SAMPLE \<and> scratchCleared s'
         else microState s' = REWIRE \<and> \<not> scratchCleared s')"
proof -
  have i: "plannerInv s" using re by (rule reachable_inv)
  then have so: "structOk (nodes s)" by (simp add: plannerInv_def)
  have ne: "nodes s \<noteq> []" using so by (simp add: structOk_def)
  have sat: "\<not> maxIterations (params s) \<le> length (nodes s)" using ns by simp
  define smp where "smp = sampleOf d1 s"
  define s1 where "s1 = s\<lparr>tempSample := Some smp, microState := NEAREST\<rparr>"
  have 1: "stepMicro fuel d1 s = Inr (True, s1)"
    using sat ms by (simp add: stepMicro_def s1_def smp_def sampleOf_def)
  obtain k where k: "k < length (nodes s)" "nearestLoop (nodes s) smp 0 None None = Some k"
    using nearestLoop_Some[OF fd] by (auto simp: smp_def)
  define s2 where "s2 = s1\<lparr>tempNearestNode := Some k, microState := STEER\<rparr>"
  have 2: "stepMicro fuel d2 s1 = Inr (True, s2)"
    using sat k by (simp add: stepMicro_def s1_def s2_def)
  define np where "np = steer (nodes s ! k) smp (stepSize (params s))"
  define s3 where "s3 = s2\<lparr>tempNewPoint := Some np, microState := COLLISION_CHECK\<rparr>"
  have 3: "stepMicro fuel d3 s2 = Inr (True, s3)"
    using sat k by (simp add: stepMicro_def s1_def s2_def s3_def np_def nearestRef_def)
  define s4 where "s4 = s3\<lparr>microState := NEIGHBORS\<rparr>"
  have 4: "stepMicro fuel d4 s3 = Inr (True, s4)"
    using sat k alg ob
    by (simp add: stepMicro_def s1_def s2_def s3_def s4_def nearestRef_def checkCollision_empty)
  define nbrs where "nbrs = findNeighbors (nodes s) np (searchRadius (params s))"
  define s5 where "s5 = s4\<lparr>tempNeighbors := nbrs, microState := CHOOSE_PARENT\<rparr>"
  have 5: "stepMicro fuel d5 s4 = Inr (True, s5)"
    using sat by (simp add: stepMicro_def s1_def s2_def s3_def s4_def s5_def nbrs_def)
  have nb: "\<forall>j\<in>set nbrs. j < length (nodes s)" using findNeighbors_lt by (auto simp: nbrs_def)
  obtain mc b where cp: "chooseParentLoop (nodes s) np [] nbrs
      (cost (nodes s ! k) + dist_pts (nodes s ! k) np) (nid (nodes s ! k)) = Inr (mc, b)"
    and b: "b = nid (nodes s ! k) \<or> b \<in> set nbrs"
    using chooseParentLoop_ok[OF nb] by blast
  have bl: "b < length (nodes s)" using b nb k so by (auto simp: structOk_def)
  define s6 where "s6 = s5\<lparr>tempBestParent := Some b, microState := ADD_NODE\<rparr>"
  have 6: "stepMicro fuel d6 s5 = Inr (True, s6)"
    using sat k ob cp
    by (simp add: stepMicro_def s1_def s2_def s3_def s4_def s5_def s6_def nearestRef_def)
  define s7 where "s7 = s6\<lparr>nodes := attach (nodes s) b np, microState := REWIRE\<rparr>"
  have fp: "finalParent s6 = b" using alg by (simp add: finalParent_def s1_def s2_def s3_def s4_def s5_def s6_def)
  have n6: "nodes s6 = nodes s" by (simp add: s1_def s2_def s3_def s4_def s5_def s6_def)
  have "addNode s6 np = Inr (True, s7)"
    using addNode_attach[of s6 np] fp n6 bl alg
    by (simp add: s7_def) (simp add: s1_def s2_def s3_def s4_def s5_def s6_def)
  then have 7: "stepMicro fuel d7 s6 = Inr (True, s7)"
    using sat by (simp add: stepMicro_def s1_def s2_def s3_def s4_def s5_def s6_def)
  have r7: "reachable s7"
    using re 1 2 3 4 5 6 7 reachable.micro by blast
  have l7: "length (nodes s7) = Suc (length (nodes s))" by (simp add: s7_def attach_length)
  have m7: "microState s7 = REWIRE" "params s7 = params s" "tempNewPoint s7 = Some np"
    by (simp_all add: s1_def s2_def s3_def s4_def s5_def s6_def s7_def)
  obtain s8 where 8: "stepMicro fuel d8 s7 = Inr (False, s8)"
    and l8: "length (nodes s8) = Suc (length (nodes s))"
    and e8: "if Suc (length (nodes s)) < maxIterations (params s)
         then microState s8 = SAMPLE \<and> scratchCleared s8
         else microState s8 = REWIRE \<and> \<not> scratchCleared s8"
  proof (cases "Suc (length (nodes s)) < maxIterations (params s)")
    case False
    then have "stepMicro fuel d8 s7 = Inr (False, s7)" using l7 m7 by (simp add: stepMicro_def)
    then show ?thesis using that[of s7] False l7 m7 by (simp add: scratchCleared_def)
  next
    case True
    have i7: "plannerInv s7" using r7 by (rule reachable_inv)
    have f7: "length (nodes s7) \<le> fuel" using fu l7 by simp
    obtain ns' where rw: "rewire fuel s7 = Inr (False, (resetTemp (s7\<lparr>nodes := ns'\<rparr>))\<lparr>microState := SAMPLE\<rparr>)"
      and rp: "rewirePost (nodes s7) (length (nodes s7) - 1) ns'"
      using rewire_ok[OF i7 f7] by blast
    have "stepMicro fuel d8 s7 = Inr (False, (resetTemp (s7\<lparr>nodes := ns'\<rparr>))\<lparr>microState := SAMPLE\<rparr>)"
      using True l7 m7 rw by (simp add: stepMicro_def)
    moreover have "length ns' = Suc (length (nodes s))" using rp l7 by (simp add: rewirePost_def)
    ultimately show ?thesis using that[of "(resetTemp (s7\<lparr>nodes := ns'\<rparr>))\<lparr>microState := SAMPLE\<rparr>"] True
      by (simp add: scratchCleared_def resetTemp_def)
  qed
  have "runMicro fuel [d1, d2, d3, d4, d5, d6, d7, d8] s
        = Inr ([True, True, True, True, True, True, True, False], s8)"
    using 1 2 3 4 5 6 7 8 by simp
  then show ?thesis using l8 e8 by blast
qed

lemma replicate8: "replicate 8 d = [d, d, d, d, d, d, d, d]"
  by (simp add: numeral_eq_Suc)

lemma exSat_reachable: "reachable exSat"
  unfolding exSat_def by (rule reachable.init)

lemma exSat_run7:
  "runMicro 5 (replicate 7 (drawsTo 4 3)) exSat
     = Inr ([True, True, True, True, True, True, True], exSatPending)"
  by (simp add: exSat_def exSatPending_def exSatParams_def exTree1_def ev numeral_eq_Suc)

lemma exSatPending_reachable: "reachable exSatPending"
  using exSat_reachable exSat_run7 by (rule reachable_runMicro)

lemma exSatPending_step:
  "stepMicro 5 (drawsTo 4 3) exSatPending = Inr (False, exSatPending)"
  by (simp add: exSat_def exSatPending_def exSatParams_def exTree1_def ev)

lemma exHuge_reachable: "reachable exHuge"
  unfolding exHuge_def by (rule reachable.init)

lemma exHuge_run8:
  "runMicro 5 (replicate 8 drawsHalf) exHuge
     = Inr ([True, True, True, True, True, True, True, True], exHugeSteer)"
  by (simp add: replicate8 exHuge_cycle)

theorem scenario_C_trace_witness:
  "reachable exInit \<and> algorithm exInit = RRTStar \<and> obstacles exInit = []
   \<and> length (nodes exInit) < maxIterations (params exInit) \<and> microState exInit = SAMPLE
   \<and> finiteDist (nodes exInit) (sampleOf (drawsTo 4 3) exInit)
   \<and> length (nodes exInit) < 5
   \<and> runMicro 5 (replicate 8 (drawsTo 4 3)) exInit
       = Inr ([True, True, True, True, True, True, True, False], exInit\<lparr>nodes := exTree1\<rparr>)
   \<and> length exTree1 = Suc (length (nodes exInit))
   \<and> microState (exInit\<lparr>nodes := exTree1\<rparr>) = SAMPLE \<and> scratchCleared (exInit\<lparr>nodes := exTree1\<rparr>)"
proof -
  have h: "algorithm exInit = RRTStar" "obstacles exInit = []"
    "length (nodes exInit) < maxIterations (params exInit)" "microState exInit = SAMPLE"
    "finiteDist (nodes exInit) (sampleOf (drawsTo 4 3) exInit)"
    "length (nodes exInit) < 5"
    by (simp_all add: exInit_def construct_def exParams_def finiteDist_def sampleOf_def drawsTo_def
        samplePoint_def distOrInf_small)
  obtain s' where r: "runMicro 5 (replicate 8 (drawsTo 4 3)) exInit
        = Inr ([True, True, True, True, True, True, True, False], s')"
    and l: "length (nodes s') = Suc (length (nodes exInit))"
    and e: "if Suc (length (nodes exInit)) < maxIterations (params exInit)
         then microState s' = SAMPLE \<and> scratchCleared s'
         else microState s' = REWIRE \<and> \<not> scratchCleared s'"
    using scenario_C_trace[OF exInit_reachable h, of "drawsTo 4 3" "drawsTo 4 3" "drawsTo 4 3"
        "drawsTo 4 3" "drawsTo 4 3" "drawsTo 4 3" "drawsTo 4 3"]
    unfolding replicate8 by blast
  have s': "s' = exInit\<lparr>nodes := exTree1\<rparr>" using r ex_iter1 by simp
  have "Suc (length (nodes exInit)) < maxIterations (params exInit)"
    by (simp add: exInit_def construct_def exParams_def)
  then show ?thesis using exInit_reachable h r l e unfolding s' by simp
qed

theorem scenario_C_trace_counterexample:
  "reachable exSat \<and> algorithm exSat = RRTStar \<and> obstacles exSat = []
   \<and> length (nodes exSat) < maxIterations (params exSat) \<and> microState exSat = SAMPLE
   \<and> scratchCleared exSat
   \<and> runMicro 5 (replicate 7 (drawsTo 4 3)) exSat
       = Inr ([True, True, True, True, True, True, True], exSatPending)
   \<and> maxIterations (params exSatPending) \<le> length (nodes exSatPending)
   \<and> stepMicro 5 (drawsTo 4 3) exSatPending = Inr (False, exSatPending)
   \<and> microState exSatPending = REWIRE \<and> tempNewPoint exSatPending = Some \<lparr>px = 4, py = 3\<rparr>
   \<and> reachable exHuge \<and> algorithm exHuge = RRTStar \<and> obstacles exHuge = []
   \<and> length (nodes exHuge) < maxIterations (params exHuge) \<and> microState exHuge = SAMPLE
   \<and> scratchCleared exHuge
   \<and> runMicro 5 (replicate 8 drawsHalf) exHuge
       = Inr ([True, True, True, True, True, True, True, True], exHugeSteer)
   \<and> length (nodes exHugeSteer) = length (nodes exHuge)"
  using exSat_reachable exSat_run7 exSatPending_step exHuge_reachable exHuge_run8
  by (simp add: exSat_def exSatPending_def exSatParams_def exTree1_def construct_def scratchCleared_def
      exHuge_def exHugeSteer_def exParams_def)

lemma scratch_cleared_on_conclusion_aux:
  "length (nodes s) < maxIterations (params s) \<Longrightarrow> stepMicro fuel rnd s = Inr (False, s') \<Longrightarrow>
     scratchCleared s' \<and> microState s' = SAMPLE"
  unfolding stepMicro_def
  by (auto simp: scratchCleared_def resetTemp_def addNode_def rewire_def Let_def
      split: codeStep.splits option.splits if_splits sum.splits prod.splits)

lemma pendingOk_step:
  "pendingOk s \<Longrightarrow> stepMicro fuel rnd s = Inr (b, s') \<Longrightarrow> pendingOk s'"
  unfolding stepMicro_def
  by (auto simp: pendingOk_def scratchCleared_def resetTemp_def addNode_def rewire_def Let_def
      split: codeStep.splits option.splits if_splits sum.splits prod.splits)

lemma reachable_pendingOk: "reachable s \<Longrightarrow> pendingOk s"
proof (induction rule: reachable.induct)
  case (init wd ht st gl obs prm alg)
  show ?case by (simp add: pendingOk_def construct_def scratchCleared_def)
next
  case (micro s fuel rnd continue s')
  show ?case using micro.IH micro.hyps(2) by (rule pendingOk_step)
qed

text \<open>
  C7, as amended.  For a planner reached by the engine's own calls, and for any planner
  below \<open>maxIterations\<close>, a micro-step that returns false leaves all scratch fields
  cleared and the tag at SAMPLE, with one exception: when the node added last by an RRT*
  planner filled the store, so that its REWIRE is still pending, the saturation check
  returns false without touching the state; the tag stays REWIRE and the scratch of that
  iteration is kept.
\<close>

theorem scratch_cleared_on_conclusion:
  assumes "reachable s \<or> length (nodes s) < maxIterations (params s)"
    and "stepMicro fuel rnd s = Inr (False, s')"
  shows "if algorithm s = RRTStar \<and> maxIterations (params s) \<le> length (nodes s)
            \<and> microState s = REWIRE
         then s' = s \<and> \<not> scratchCleared s'
         else scratchCleared s' \<and> microState s' = SAMPLE"
proof (cases "length (nodes s) < maxIterations (params s)")
  case True
  then show ?thesis using scratch_cleared_on_conclusion_aux[OF True assms(2)] by simp
next
  case False
  then have "reachable s" using assms(1) by blast
  then have p: "pendingOk s" by (rule reachable_pendingOk)
  have e: "s' = s" using False assms(2) by (simp add: stepMicro_def)
  show ?thesis
  proof (cases "microState s = REWIRE")
    case True
    then show ?thesis using p e False by (simp add: pendingOk_def scratchCleared_def)
  next
    case f: False
    then show ?thesis using p e False by (simp add: pendingOk_def)
  qed
qed

theorem scratch_cleared_on_conclusion_witness:
  "reachable exRewire
   \<and> stepMicro 5 (drawsTo 2 0) exRewire = Inr (False, exFinal)
   \<and> length (nodes exRewire) < maxIterations (params exRewire)
   \<and> scratchCleared exFinal \<and> microState exFinal = SAMPLE
   \<and> reachable exFull \<and> algorithm exFull = RRTStar
   \<and> maxIterations (params exFull) \<le> length (nodes exFull)
   \<and> stepMicro 5 (drawsTo 2 0) exFull = Inr (False, exFull)
   \<and> scratchCleared exFull \<and> microState exFull = SAMPLE
   \<and> reachable exSatPending \<and> algorithm exSatPending = RRTStar
   \<and> maxIterations (params exSatPending) \<le> length (nodes exSatPending)
   \<and> microState exSatPending = REWIRE
   \<and> stepMicro 5 (drawsTo 4 3) exSatPending = Inr (False, exSatPending)
   \<and> \<not> scratchCleared exSatPending"
proof -
  have h: "length (nodes exRewire) < maxIterations (params exRewire)"
    by (simp add: exRewire_def exInit_def construct_def exParams_def exTree4pre_def)
  have 1: "scratchCleared exFinal \<and> microState exFinal = SAMPLE"
    using scratch_cleared_on_conclusion[OF disjI1[OF exRewire_reachable] ex_iter4b[folded exFinal_def]] h
    by simp
  have rf: "reachable exFull" unfolding exFull_def by (rule reachable.init)
  have f: "algorithm exFull = RRTStar" "maxIterations (params exFull) \<le> length (nodes exFull)"
    "microState exFull = SAMPLE"
    by (simp_all add: exFull_def construct_def)
  have sf: "stepMicro 5 (drawsTo 2 0) exFull = Inr (False, exFull)"
    using f by (simp add: stepMicro_def)
  have 2: "scratchCleared exFull \<and> microState exFull = SAMPLE"
    using scratch_cleared_on_conclusion[OF disjI1[OF rf] sf] f by simp
  have p: "algorithm exSatPending = RRTStar"
    "maxIterations (params exSatPending) \<le> length (nodes exSatPending)"
    "microState exSatPending = REWIRE"
    by (simp_all add: exSatPending_def exSat_def construct_def exSatParams_def exTree1_def)
  have 3: "\<not> scratchCleared exSatPending"
    using scratch_cleared_on_conclusion[OF disjI1[OF exSatPending_reachable] exSatPending_step] p
    by simp
  show ?thesis
    using 1 2 3 exRewire_reachable ex_iter4b[folded exFinal_def] h rf f sf p
      exSatPending_reachable exSatPending_step
    by simp
qed

theorem scratch_cleared_on_conclusion_counterexample:
  "reachable exSatPending
   \<and> stepMicro 5 (drawsTo 4 3) exSatPending = Inr (False, exSatPending)
   \<and> microState exSatPending = REWIRE
   \<and> tempSample exSatPending = Some \<lparr>px = 4, py = 3\<rparr>
   \<and> tempNearestNode exSatPending = Some 0
   \<and> tempBestParent exSatPending = Some 0"
  using exSatPending_reachable exSatPending_step
  by (simp add: exSatPending_def)

text \<open>
  C9, as amended.  Below \<open>maxIterations\<close>, when a scratch field that the current
  micro-state guards is missing, the call returns normally with the tag at SAMPLE and the
  store unchanged.  ADD_NODE guards only \<open>tempNewPoint\<close>: with \<open>tempNearestNode\<close>
  missing it falls back to the root as parent and still appends the node.
\<close>

theorem scratch_recovery:
  assumes "guardedScratchMissing s" "length (nodes s) < maxIterations (params s)"
  shows "\<exists>s'. stepMicro fuel rnd s = Inr (microState s \<noteq> REWIRE, s')
      \<and> microState s' = SAMPLE \<and> nodes s' = nodes s"
proof (cases "microState s")
  case REWIRE
  then have "tempNewPoint s = None" using assms(1) by (simp add: guardedScratchMissing_def)
  then have "stepMicro fuel rnd s = Inr (False, (resetTemp (s\<lparr>nodes := nodes s\<rparr>))\<lparr>microState := SAMPLE\<rparr>)"
    using REWIRE assms(2) by (simp add: stepMicro_def rewire_def)
  then show ?thesis using REWIRE by (simp add: resetTemp_def)
qed (use assms in \<open>auto simp: guardedScratchMissing_def stepMicro_def nearestRef_def split: option.splits\<close>)

theorem scratch_recovery_witness:
  "guardedScratchMissing exNoSample \<and> length (nodes exNoSample) < maxIterations (params exNoSample)
   \<and> stepMicro 5 (drawsTo 4 0) exNoSample = Inr (True, exNoSample\<lparr>microState := SAMPLE\<rparr>)"
proof -
  have h: "guardedScratchMissing exNoSample" "length (nodes exNoSample) < maxIterations (params exNoSample)"
    by (simp_all add: guardedScratchMissing_def exNoSample_def exInit_def construct_def exParams_def exTree1_def)
  have "stepMicro 5 (drawsTo 4 0) exNoSample = Inr (True, exNoSample\<lparr>microState := SAMPLE\<rparr>)"
    by (simp add: exNoSample_def exInit_def exTree1_def ev)
  then show ?thesis using scratch_recovery[OF h, of 5 "drawsTo 4 0"] h by simp
qed

theorem scratch_recovery_counterexample:
  "requiredScratchMissing exNoNearest \<and> tempNearestNode exNoNearest = None
   \<and> microState exNoNearest = ADD_NODE
   \<and> length (nodes exNoNearest) < maxIterations (params exNoNearest)
   \<and> stepMicro 5 (drawsTo 4 3) exNoNearest
       = Inr (True, exNoNearest\<lparr>nodes := exTree1, microState := REWIRE\<rparr>)
   \<and> length (nodes exNoNearest) = 1 \<and> length exTree1 = 2"
  by (simp add: requiredScratchMissing_def exNoNearest_def exInit_def exTree1_def ev)

section \<open>Draining an iteration\<close>














section \<open>Path extraction\<close>









end
